theory Spec2Isabelle
  imports Complex_Main "HOL-Library.Log_Nat"
begin

section \<open>Constants and tables of minimotif.c\<close>

text \<open>
  The C program works on \<open>int\<close> (32 bit) and \<open>double\<close>. Integers are modelled as
  \<open>int\<close>: with at most 50 positions and cell scores bounded by the ambiguity score no
  sum of scores leaves the 32-bit range; where the program adds numbers that it read
  (the counts of a JASPAR motif, the site count and the pseudocount) the reduction to 32
  bits is written out (\<open>c_int_wrap\<close>). Doubles are idealised as \<open>real\<close>: rounding
  error of the floating-point unit is outside this model, the arithmetic structure of the
  code is not. The one place where the rounding is written out is the test of the row sum
  in \<open>normalize_probs\<close>, a sum of four numbers read from the file that is compared with
  constants (\<open>double_round\<close>).
\<close>

definition MAX_MOTIF_SIZE :: nat where
  "MAX_MOTIF_SIZE = 250"

definition AMBIGUITY_SCORE :: int where
  "AMBIGUITY_SCORE = - 10000000"

definition MIN_BKG_VALUE :: real where
  "MIN_BKG_VALUE = 1 / 1000"

definition MAX_CDF_SIZE :: int where
  "MAX_CDF_SIZE = 2097152"

definition PWM_INT_MULTIPLIER :: real where
  "PWM_INT_MULTIPLIER = 1000"

definition INT_MAX :: int where
  "INT_MAX = 2147483647"

definition INT_MIN :: int where
  "INT_MIN = - 2147483648"

text \<open>
  The result of an \<open>int\<close> addition or subtraction whose exact value is \<open>x\<close>: the value
  reduced to 32 bits, two's complement. (Overflow is undefined behaviour in C; this is
  what the machine instruction leaves.)
\<close>

definition c_int_wrap :: "int \<Rightarrow> int" where
  "c_int_wrap x = (x + 2147483648) mod 4294967296 - 2147483648"

text \<open>
  The double nearest to a real number (IEEE 754 binary64, round to nearest, ties to
  even): \<open>double_exponent x\<close> is the \<open>e\<close> with \<open>2 ^ e \<le> x < 2 ^ (e + 1)\<close> for a
  positive \<open>x\<close>, the spacing of the doubles around \<open>x\<close> is \<open>2 ^ (e - 52)\<close> and
  \<open>2 ^ - 1074\<close> for the subnormal numbers. Overflow to infinity is outside the model.
\<close>

definition round_even :: "real \<Rightarrow> int" where
  "round_even m =
     (let f = \<lfloor>m\<rfloor>; d = m - of_int f
      in if d < 1 / 2 then f else if 1 / 2 < d then f + 1 else if even f then f else f + 1)"

definition double_exponent :: "real \<Rightarrow> int" where
  "double_exponent x = (if 1 \<le> x then bitlen \<lfloor>x\<rfloor> - 1 else - bitlen (\<lceil>1 / x\<rceil> - 1))"

definition two_pow :: "int \<Rightarrow> real" where
  "two_pow e = (if 0 \<le> e then 2 ^ nat e else 1 / 2 ^ nat (- e))"

definition double_round :: "real \<Rightarrow> real" where
  "double_round x =
     (if x = 0 then 0
      else let u = two_pow (max (double_exponent \<bar>x\<bar> - 52) (- 1074))
           in sgn x * of_int (round_even (\<bar>x\<bar> / u)) * u)"

text \<open>\<open>atof\<close> on the text of a number: the double nearest to the number.\<close>

definition atof :: "real \<Rightarrow> real" where
  "atof x = double_round x"

text \<open>The table \<open>char2index\<close>, indexed by the byte value.\<close>

definition char2index_tab :: "nat list" where
  "char2index_tab =
   [4, 4, 4, 4, 4, 4, 4, 4, 4, 4, 4, 4, 4, 4, 4, 4,
    4, 4, 4, 4, 4, 4, 4, 4, 4, 4, 4, 4, 4, 4, 4, 4,
    4, 4, 4, 4, 4, 4, 4, 4, 4, 4, 4, 4, 4, 4, 4, 4,
    4, 4, 4, 4, 4, 4, 4, 4, 4, 4, 4, 4, 4, 4, 4, 4,
    4, 0, 4, 1, 4, 4, 4, 2, 4, 4, 4, 4, 4, 4, 4, 4,
    4, 4, 4, 4, 3, 3, 4, 4, 4, 4, 4, 4, 4, 4, 4, 4,
    4, 0, 4, 1, 4, 4, 4, 2, 4, 4, 4, 4, 4, 4, 4, 4,
    4, 4, 4, 4, 3, 3, 4, 4, 4, 4, 4, 4, 4, 4, 4, 4,
    4, 4, 4, 4, 4, 4, 4, 4, 4, 4, 4, 4, 4, 4, 4, 4,
    4, 4, 4, 4, 4, 4, 4, 4, 4, 4, 4, 4, 4, 4, 4, 4,
    4, 4, 4, 4, 4, 4, 4, 4, 4, 4, 4, 4, 4, 4, 4, 4,
    4, 4, 4, 4, 4, 4, 4, 4, 4, 4, 4, 4, 4, 4, 4, 4,
    4, 4, 4, 4, 4, 4, 4, 4, 4, 4, 4, 4, 4, 4, 4, 4,
    4, 4, 4, 4, 4, 4, 4, 4, 4, 4, 4, 4, 4, 4, 4, 4,
    4, 4, 4, 4, 4, 4, 4, 4, 4, 4, 4, 4, 4, 4, 4, 4,
    4, 4, 4, 4, 4, 4, 4, 4, 4, 4, 4, 4, 4, 4, 4, 4]"

definition char2index :: "char \<Rightarrow> nat" where
  "char2index c = char2index_tab ! (of_char c)"

text \<open>The table \<open>consensus2probs\<close>: four probabilities for each of the 15 IUPAC codes.\<close>

definition consensus2probs :: "real list" where
  "consensus2probs =
   [1, 0, 0, 0,
    0, 1, 0, 0,
    0, 0, 1, 0,
    0, 0, 0, 1,
    0, 1/2, 0, 1/2,
    1/2, 0, 1/2, 0,
    1/2, 0, 0, 1/2,
    0, 1/2, 1/2, 0,
    0, 0, 1/2, 1/2,
    1/2, 1/2, 0, 0,
    333/1000, 0, 333/1000, 333/1000,
    333/1000, 333/1000, 333/1000, 0,
    333/1000, 333/1000, 0, 333/1000,
    0, 333/1000, 333/1000, 333/1000,
    1/4, 1/4, 1/4, 1/4]"

text \<open>The table \<open>consensus2index\<close>, indexed by the byte value.\<close>

definition consensus2index_tab :: "int list" where
  "consensus2index_tab =
   [-1, -1, -1, -1, -1, -1, -1, -1, -1, -1, -1, -1, -1, -1, -1, -1,
    -1, -1, -1, -1, -1, -1, -1, -1, -1, -1, -1, -1, -1, -1, -1, -1,
    -1, -1, -1, -1, -1, -1, -1, -1, -1, -1, -1, -1, -1, -1, -1, -1,
    -1, -1, -1, -1, -1, -1, -1, -1, -1, -1, -1, -1, -1, -1, -1, -1,
    -1,  0, 13,  1, 10, -1, -1,  2, 12, -1, -1,  8, -1,  9, 14, -1,
    -1, -1,  5,  7,  3,  3, 11,  6, -1,  4, -1, -1, -1, -1, -1, -1,
    -1,  0, 13,  1, 10, -1, -1,  2, 12, -1, -1,  8, -1,  9, 14, -1,
    -1, -1,  5,  7,  3,  3, 11,  6, -1,  4, -1, -1, -1, -1, -1, -1,
    -1, -1, -1, -1, -1, -1, -1, -1, -1, -1, -1, -1, -1, -1, -1, -1,
    -1, -1, -1, -1, -1, -1, -1, -1, -1, -1, -1, -1, -1, -1, -1, -1,
    -1, -1, -1, -1, -1, -1, -1, -1, -1, -1, -1, -1, -1, -1, -1, -1,
    -1, -1, -1, -1, -1, -1, -1, -1, -1, -1, -1, -1, -1, -1, -1, -1,
    -1, -1, -1, -1, -1, -1, -1, -1, -1, -1, -1, -1, -1, -1, -1, -1,
    -1, -1, -1, -1, -1, -1, -1, -1, -1, -1, -1, -1, -1, -1, -1, -1,
    -1, -1, -1, -1, -1, -1, -1, -1, -1, -1, -1, -1, -1, -1, -1, -1,
    -1, -1, -1, -1, -1, -1, -1, -1, -1, -1, -1, -1, -1, -1, -1, -1]"

definition consensus2index :: "char \<Rightarrow> int" where
  "consensus2index c = consensus2index_tab ! (of_char c)"

section \<open>Program state\<close>

text \<open>
  \<open>args_t\<close>: the fields of the global \<open>args\<close> that the scoring engine reads. The
  background \<open>bkg\<close> is an array of four doubles.
\<close>

record args_t =
  bkg :: "real list"
  pvalue :: real
  nsites :: int
  pseudocount :: int
  scan_rc :: bool

definition default_args :: args_t where
  "default_args =
     \<lparr>bkg = [1/4, 1/4, 1/4, 1/4], pvalue = 1 / 100000, nsites = 1000,
      pseudocount = 1, scan_rc = True\<rparr>"

text \<open>
  \<open>motif_t\<close>: \<open>pwm\<close> and \<open>pwm_rc\<close> are the flat arrays of \<open>MAX_MOTIF_SIZE\<close> ints,
  five cells per position; \<open>cdf\<close> is the heap array of \<open>cdf_size\<close> doubles. The fields
  \<open>size\<close>, \<open>min\<close> and \<open>max\<close> of the C struct carry the suffix \<open>_m\<close> here.
\<close>

record motif_t =
  size_m :: nat
  threshold :: int
  min_m :: int
  max_m :: int
  max_score :: int
  min_score :: int
  cdf_size :: nat
  name :: string
  pwm :: "int list"
  pwm_rc :: "int list"
  cdf :: "real list"

datatype error =
    TooFewBkgValues
  | CdfTooLarge
  | TooManyColumns
  | EmptyRow
  | TooFewColumns
  | PositionSumNotOne
  | MotifTooLarge
  | UnknownConsensusLetter
  | ColumnSumsNotEqual
  | MalformedMeme
  | NoMotifs

text \<open>\<open>ERASE_ARRAY\<close>-style loops over an index range are folds over \<open>[0..<n]\<close>.\<close>

definition init_motif :: motif_t where
  "init_motif =
     (let z = replicate MAX_MOTIF_SIZE (0::int);
          amb = fold (\<lambda>i p. p[5 * i + 4 := AMBIGUITY_SCORE]) [0..<MAX_MOTIF_SIZE div 5] z
      in \<lparr>size_m = 0, threshold = 0, min_m = 0, max_m = 0, max_score = 0, min_score = 0,
          cdf_size = 0, name = ''motif'', pwm = amb, pwm_rc = amb, cdf = []\<rparr>)"

text \<open>
  The accessors. A store at an index beyond the array is undefined behaviour in C (it
  lands in the memory after \<open>pwm\<close>); the model drops it, and every statement about
  cell scores below is for positions inside the array.
\<close>

definition set_score :: "motif_t \<Rightarrow> char \<Rightarrow> nat \<Rightarrow> int \<Rightarrow> motif_t" where
  "set_score motif l pos score = motif\<lparr>pwm := (pwm motif)[char2index l + pos * 5 := score]\<rparr>"

definition get_score :: "motif_t \<Rightarrow> char \<Rightarrow> nat \<Rightarrow> int" where
  "get_score motif l pos = pwm motif ! (char2index l + pos * 5)"

definition get_score_i :: "motif_t \<Rightarrow> nat \<Rightarrow> nat \<Rightarrow> int" where
  "get_score_i motif i pos = pwm motif ! (i + pos * 5)"

definition set_score_rc :: "motif_t \<Rightarrow> char \<Rightarrow> nat \<Rightarrow> int \<Rightarrow> motif_t" where
  "set_score_rc motif l pos score =
     motif\<lparr>pwm_rc := (pwm_rc motif)[char2index l + pos * 5 := score]\<rparr>"

definition get_score_rc :: "motif_t \<Rightarrow> char \<Rightarrow> nat \<Rightarrow> int" where
  "get_score_rc motif l pos = pwm_rc motif ! (char2index l + pos * 5)"

section \<open>Background validation\<close>

definition VEC_ADD :: "real list \<Rightarrow> real \<Rightarrow> nat \<Rightarrow> real list" where
  "VEC_ADD vec x vec_len = fold (\<lambda>i v. v[i := v ! i + x]) [0..<vec_len] vec"

definition VEC_DIV :: "real list \<Rightarrow> real \<Rightarrow> nat \<Rightarrow> real list" where
  "VEC_DIV vec x vec_len = fold (\<lambda>i v. v[i := v ! i / x]) [0..<vec_len] vec"

definition VEC_MIN :: "real list \<Rightarrow> nat \<Rightarrow> real" where
  "VEC_MIN vec vec_len = fold (\<lambda>i m. if vec ! i < m then vec ! i else m) [0..<vec_len] (vec ! 0)"

text \<open>
  \<open>check_and_load_bkg\<close> receives the four parsed values, \<open>-1\<close> marking a value that
  was never supplied, and on success stores the adjusted values in \<open>args.bkg\<close>.
\<close>

definition check_and_load_bkg :: "args_t \<Rightarrow> real list \<Rightarrow> error + args_t" where
  "check_and_load_bkg a b =
     (if b ! 0 = - 1 \<or> b ! 1 = - 1 \<or> b ! 2 = - 1 \<or> b ! 3 = - 1 then Inl TooFewBkgValues
      else
        let mn = VEC_MIN b 4;
            b1 = (if mn < MIN_BKG_VALUE then VEC_ADD b MIN_BKG_VALUE 4 else b);
            sum = b1 ! 0 + b1 ! 1 + b1 ! 2 + b1 ! 3;
            b2 = VEC_DIV b1 sum 4
        in Inr (a\<lparr>bkg := [b2 ! 0, b2 ! 1, b2 ! 2, b2 ! 3]\<rparr>))"

section \<open>PWM construction\<close>

text \<open>The cast \<open>(int) x\<close> of a double: truncation toward zero.\<close>

definition c_int_cast :: "real \<Rightarrow> int" where
  "c_int_cast x = (if 0 \<le> x then \<lfloor>x\<rfloor> else \<lceil>x\<rceil>)"

text \<open>
  \<open>calc_score\<close>. When the quotient \<open>x / bkg_i\<close> is not positive, or a divisor is zero,
  the doubles of the C function are infinite or not a number from \<open>log2\<close> on at the
  latest; the cast of such a value to \<open>int\<close> is undefined in C and leaves \<open>INT_MIN\<close> on
  x86-64. (A division by zero has the value 0 in HOL, which falls in the same branch.)
\<close>

definition calc_score :: "args_t \<Rightarrow> real \<Rightarrow> real \<Rightarrow> int" where
  "calc_score a prob_i bkg_i =
     (let x = prob_i * of_int (nsites a);
          x = x + of_int (pseudocount a) / 4;
          x = x / of_int (c_int_wrap (nsites a + pseudocount a))
      in if x / bkg_i \<le> 0 then INT_MIN
         else c_int_cast (log 2 (x / bkg_i) * PWM_INT_MULTIPLIER))"

text \<open>
  \<open>normalize_probs\<close>. The sum of the four doubles is taken from left to right, each
  addition rounded, and compared with the doubles nearest to 0.1 and 0.02; a row that is
  adjusted is divided by that sum, each quotient rounded.
\<close>

definition normalize_probs :: "real list \<Rightarrow> error + real list" where
  "normalize_probs probs =
     (let sum = double_round (double_round (double_round (probs ! 0 + probs ! 1) + probs ! 2)
                  + probs ! 3)
      in if \<bar>double_round (sum - 1)\<bar> > double_round (1 / 10) then Inl PositionSumNotOne
         else if \<bar>double_round (sum - 1)\<bar> > double_round (2 / 100)
              then Inr (map double_round (VEC_DIV probs sum 4))
         else Inr probs)"

text \<open>
  \<open>get_line_probs\<close> splits a text line at blanks and converts each field with
  \<open>atof\<close>. The model receives the fields of the line as the numbers their text
  denotes and keeps the checks on their number, in the order the C function reports
  them.
\<close>

definition get_line_probs :: "real list \<Rightarrow> nat \<Rightarrow> error + real list" where
  "get_line_probs flds n =
     (if length flds > n then Inl TooManyColumns
      else if flds = [] then Inl EmptyRow
      else if length flds < n then Inl TooFewColumns
      else Inr (map atof flds))"

definition add_motif_column :: "args_t \<Rightarrow> motif_t \<Rightarrow> real list \<Rightarrow> nat \<Rightarrow> error + motif_t" where
  "add_motif_column a motif line pos =
     (case get_line_probs line 4 of
        Inl e \<Rightarrow> Inl e
      | Inr probs0 \<Rightarrow>
          (case normalize_probs probs0 of
             Inl e \<Rightarrow> Inl e
           | Inr probs \<Rightarrow>
               (let m = set_score motif CHR ''A'' pos (calc_score a (probs ! 0) (bkg a ! 0));
                    m = set_score m CHR ''C'' pos (calc_score a (probs ! 1) (bkg a ! 1));
                    m = set_score m CHR ''G'' pos (calc_score a (probs ! 2) (bkg a ! 2));
                    m = set_score m CHR ''T'' pos (calc_score a (probs ! 3) (bkg a ! 3))
                in Inr m)))"

definition get_pwm_max :: "motif_t \<Rightarrow> int" where
  "get_pwm_max motif =
     fold (\<lambda>pos mx. fold (\<lambda>l mx. let val = get_score_i motif l pos
                                in if val > mx then val else mx) [0..<4] mx)
          [0..<size_m motif] 0"

definition get_pwm_min :: "motif_t \<Rightarrow> int" where
  "get_pwm_min motif =
     fold (\<lambda>pos mn. fold (\<lambda>l mn. let val = get_score_i motif l pos
                                in if val < mn then val else mn) [0..<4] mn)
          [0..<size_m motif] 0"

definition fill_pwm_rc_pos :: "nat \<Rightarrow> motif_t \<Rightarrow> motif_t" where
  "fill_pwm_rc_pos pos motif =
     (let m = set_score_rc motif CHR ''A'' (size_m motif - 1 - pos) (get_score motif CHR ''T'' pos);
          m = set_score_rc m CHR ''C'' (size_m m - 1 - pos) (get_score m CHR ''G'' pos);
          m = set_score_rc m CHR ''G'' (size_m m - 1 - pos) (get_score m CHR ''C'' pos);
          m = set_score_rc m CHR ''T'' (size_m m - 1 - pos) (get_score m CHR ''A'' pos)
      in m)"

definition fill_pwm_rc :: "motif_t \<Rightarrow> motif_t" where
  "fill_pwm_rc motif = fold fill_pwm_rc_pos [0..<size_m motif] motif"

text \<open>The body of the loop of \<open>complete_motifs\<close>, for one motif.\<close>

definition complete_motif :: "motif_t \<Rightarrow> motif_t" where
  "complete_motif motif =
     (let m = motif\<lparr>min_m := get_pwm_min motif\<rparr>;
          m = m\<lparr>max_m := get_pwm_max m\<rparr>
      in fill_pwm_rc m)"





text \<open>
  \<open>add_consensus_motif\<close>. A consensus longer than 50 letters prints an error message
  and goes on; the model returns the messages printed without exit beside the motif.
\<close>

fun consensus_columns :: "args_t \<Rightarrow> motif_t \<Rightarrow> string \<Rightarrow> nat \<Rightarrow> error + motif_t" where
  "consensus_columns a motif [] pos = Inr motif"
| "consensus_columns a motif (c # cs) pos =
     (let let_i = consensus2index c
      in if let_i < 0 then Inl UnknownConsensusLetter
         else
           let m = set_score motif CHR ''A'' pos
                     (calc_score a (consensus2probs ! (nat let_i * 4 + 0)) (bkg a ! 0));
               m = set_score m CHR ''C'' pos
                     (calc_score a (consensus2probs ! (nat let_i * 4 + 1)) (bkg a ! 1));
               m = set_score m CHR ''G'' pos
                     (calc_score a (consensus2probs ! (nat let_i * 4 + 2)) (bkg a ! 2));
               m = set_score m CHR ''T'' pos
                     (calc_score a (consensus2probs ! (nat let_i * 4 + 3)) (bkg a ! 3))
           in consensus_columns a m cs (pos + 1))"

definition add_consensus_motif :: "args_t \<Rightarrow> string \<Rightarrow> error + (motif_t \<times> error list)" where
  "add_consensus_motif a consensus =
     (let m0 = init_motif\<lparr>name := consensus, size_m := length consensus\<rparr>;
          printed = (if size_m m0 > MAX_MOTIF_SIZE div 5 then [MotifTooLarge] else [])
      in case consensus_columns a m0 consensus 0 of
           Inl e \<Rightarrow> Inl e
         | Inr m \<Rightarrow> Inr (complete_motif m, printed))"

text \<open>
  \<open>read_homer\<close>. A line of the file is a header (\<open>>\<close> first), a row of fields, or
  blank. The state of the loop is the motifs read so far (the last one is
  \<open>motifs[motif_i]\<close>), the position counter \<open>pos_i\<close> and the messages printed without
  exit. A row before the first header indexes \<open>motifs[-1]\<close> in C; the model stops
  there.
\<close>

datatype homer_line = HomerHeader string | HomerRow "real list" | HomerBlank

record homer_state =
  hs_motifs :: "motif_t list"
  hs_pos_i :: nat
  hs_printed :: "error list"

fun read_homer_loop :: "args_t \<Rightarrow> homer_line list \<Rightarrow> homer_state \<Rightarrow> error + homer_state" where
  "read_homer_loop a [] st = Inr st"
| "read_homer_loop a (HomerHeader nm # ls) st =
     read_homer_loop a ls
       (st\<lparr>hs_motifs := hs_motifs st @ [init_motif\<lparr>name := nm\<rparr>], hs_pos_i := 0\<rparr>)"
| "read_homer_loop a (HomerBlank # ls) st = read_homer_loop a ls st"
| "read_homer_loop a (HomerRow flds # ls) st =
     (if hs_motifs st = [] then Inl EmptyRow
      else
        let st1 = (if hs_pos_i st > MAX_MOTIF_SIZE div 5
                   then st\<lparr>hs_printed := hs_printed st @ [MotifTooLarge]\<rparr> else st)
        in case add_motif_column a (last (hs_motifs st1)) flds (hs_pos_i st1) of
             Inl e \<Rightarrow> Inl e
           | Inr m \<Rightarrow>
               read_homer_loop a ls
                 (st1\<lparr>hs_motifs := butlast (hs_motifs st1) @ [m\<lparr>size_m := hs_pos_i st1 + 1\<rparr>],
                      hs_pos_i := hs_pos_i st1 + 1\<rparr>))"

definition read_homer :: "args_t \<Rightarrow> homer_line list \<Rightarrow> error + homer_state" where
  "read_homer a ls = read_homer_loop a ls \<lparr>hs_motifs = [], hs_pos_i = 0, hs_printed = []\<rparr>"

text \<open>
  The matrix rows of \<open>read_meme\<close>: the branch taken for row number \<open>pos_i\<close> of a live
  motif.
\<close>

definition read_meme_row :: "args_t \<Rightarrow> motif_t \<Rightarrow> real list \<Rightarrow> nat \<Rightarrow> error + motif_t" where
  "read_meme_row a motif flds pos_i =
     (if pos_i \<ge> MAX_MOTIF_SIZE div 5 then Inl MotifTooLarge
      else case add_motif_column a motif flds pos_i of
             Inl e \<Rightarrow> Inl e
           | Inr m \<Rightarrow> Inr (m\<lparr>size_m := pos_i + 1\<rparr>))"





section \<open>CDF engine\<close>

text \<open>
  The innermost loop of \<open>fill_cdf\<close>, over \<open>k\<close>, for one letter with shifted score
  \<open>s\<close> and background probability \<open>b\<close>.
\<close>

definition cdf_add_cell :: "real list \<Rightarrow> real \<Rightarrow> nat \<Rightarrow> nat \<Rightarrow> real list \<Rightarrow> real list" where
  "cdf_add_cell tmp_pdf b s k c =
     (if tmp_pdf ! k \<noteq> 0 then c[k + s := c ! (k + s) + tmp_pdf ! k * b] else c)"

definition cdf_add_letter :: "real list \<Rightarrow> real \<Rightarrow> nat \<Rightarrow> nat \<Rightarrow> real list \<Rightarrow> real list" where
  "cdf_add_letter tmp_pdf b s max_step c =
     fold (cdf_add_cell tmp_pdf b s) [0..<max_step + 1] c"

text \<open>The body of the loop over the positions \<open>i\<close>.\<close>

definition cdf_position :: "args_t \<Rightarrow> motif_t \<Rightarrow> nat \<Rightarrow> nat \<Rightarrow> real list \<Rightarrow> real list" where
  "cdf_position a motif max_sc i c =
     (let max_step = i * max_sc;
          tmp_pdf = c;
          c0 = fold (\<lambda>j c. c[j := 0]) [0..<max_step + max_sc + 1] c
      in fold (\<lambda>j c. cdf_add_letter tmp_pdf (bkg a ! j)
                        (nat (get_score_i motif j i - min_m motif)) max_step c)
              [0..<4] c0)"

text \<open>The last loop: the suffix sums, from the high index down.\<close>

definition suffix_sums :: "real list \<Rightarrow> real list" where
  "suffix_sums c = fold (\<lambda>i c. c[i := c ! i + c ! (i + 1)]) (rev [0..<length c - 1]) c"

definition pdf_array :: "args_t \<Rightarrow> motif_t \<Rightarrow> real list" where
  "pdf_array a motif =
     (let max_sc = nat (max_m motif - min_m motif);
          pdf_size = size_m motif * max_sc + 1
      in fold (cdf_position a motif max_sc) [0..<size_m motif] (replicate pdf_size 1))"

text \<open>The sum of the PDF and the division by it when it is off by more than 0.0001.\<close>

definition renormalize :: "real list \<Rightarrow> real list" where
  "renormalize c =
     (let pdf_sum = fold (\<lambda>i s. s + c ! i) [0..<length c] 0
      in if \<bar>pdf_sum - 1\<bar> > 1 / 10000
         then fold (\<lambda>i c. c[i := c ! i / pdf_sum]) [0..<length c] c else c)"

definition cdf_array :: "args_t \<Rightarrow> motif_t \<Rightarrow> real list" where
  "cdf_array a motif = suffix_sums (renormalize (pdf_array a motif))"

definition fill_cdf :: "args_t \<Rightarrow> motif_t \<Rightarrow> error + motif_t" where
  "fill_cdf a motif =
     (let max_sc = max_m motif - min_m motif;
          pdf_size = int (size_m motif) * max_sc + 1
      in if pdf_size > MAX_CDF_SIZE then Inl CdfTooLarge
         else Inr (motif\<lparr>cdf_size := nat pdf_size, cdf := cdf_array a motif\<rparr>))"

definition score2pval :: "motif_t \<Rightarrow> int \<Rightarrow> real" where
  "score2pval motif score = cdf motif ! nat (score - min_m motif * int (size_m motif))"

section \<open>Threshold\<close>

text \<open>
  The comparison \<open>x / y > 1.0001\<close> on doubles: with \<open>y = 0\<close> the quotient is
  \<open>+inf\<close> for positive \<open>x\<close> and not a number or \<open>-inf\<close> otherwise.
\<close>

definition ratio_exceeds :: "real \<Rightarrow> real \<Rightarrow> bool" where
  "ratio_exceeds x y = (if y = 0 then 0 < x else x / y > 10001 / 10000)"

text \<open>The first loop of \<open>set_threshold\<close>: the first index below the p-value, with \<open>break\<close>.\<close>

definition threshold_index :: "real list \<Rightarrow> nat \<Rightarrow> real \<Rightarrow> nat" where
  "threshold_index c n p = (case find (\<lambda>i. c ! i < p) [0..<n] of None \<Rightarrow> n | Some i \<Rightarrow> i)"

definition add_position_extremes :: "nat \<Rightarrow> motif_t \<Rightarrow> motif_t" where
  "add_position_extremes i motif =
     (let first = get_score_i motif 0 i;
          (max_pos, min_pos) =
             fold (\<lambda>j (mx, mn). let tmp_pos = get_score_i motif j i
                                in (if tmp_pos > mx then tmp_pos else mx,
                                    if tmp_pos < mn then tmp_pos else mn))
                  [1..<4] (first, first)
      in motif\<lparr>max_score := max_score motif + max_pos, min_score := min_score motif + min_pos\<rparr>)"

definition set_threshold :: "args_t \<Rightarrow> motif_t \<Rightarrow> motif_t" where
  "set_threshold a motif =
     (let threshold_i = threshold_index (cdf motif) (cdf_size motif) (pvalue a);
          t = threshold motif - min_m motif;
          t = t * int (size_m motif);
          t = int threshold_i - t;
          m = motif\<lparr>threshold := t\<rparr>;
          m = fold add_position_extremes [0..<size_m m] m;
          min_pvalue = score2pval m (max_score m)
      in if ratio_exceeds min_pvalue (pvalue a) then m\<lparr>threshold := INT_MAX\<rparr> else m)"

section \<open>Scanner\<close>

definition score_subseq :: "motif_t \<Rightarrow> string \<Rightarrow> nat \<Rightarrow> int" where
  "score_subseq motif seq offset =
     fold (\<lambda>i score. score + get_score motif (seq ! (i + offset)) i) [0..<size_m motif] 0"

definition score_subseq_rc :: "motif_t \<Rightarrow> string \<Rightarrow> nat \<Rightarrow> int" where
  "score_subseq_rc motif seq offset =
     fold (\<lambda>i score. score + get_score_rc motif (seq ! (i + offset)) i) [0..<size_m motif] 0"

text \<open>
  One output line: sequence name, 1-based start, inclusive end, strand, motif name,
  p-value, raw integer score and the matched bytes. (The printed score is the raw score
  divided by 1000; the percentage column is left out.)
\<close>

record hit =
  h_seq :: string
  h_start :: nat
  h_end :: nat
  h_strand :: char
  h_motif :: string
  h_pvalue :: real
  h_score :: int
  h_match :: string

text \<open>
  \<open>scan_out\<close>: the lines written so far and, as an instrument of the model, the number
  of windows scored.
\<close>

record scan_out =
  hits :: "hit list"
  windows_scored :: nat

text \<open>The body of a scanning loop, for the window at offset \<open>i\<close>.\<close>

definition scan_window ::
  "(motif_t \<Rightarrow> string \<Rightarrow> nat \<Rightarrow> int) \<Rightarrow> char \<Rightarrow> motif_t \<Rightarrow> string \<Rightarrow> string \<Rightarrow> nat \<Rightarrow> scan_out \<Rightarrow> scan_out" where
  "scan_window scorer strand motif seq_name seq i out =
     (let score = scorer motif seq i;
          out = out\<lparr>windows_scored := windows_scored out + 1\<rparr>
      in if score \<ge> threshold motif
         then out\<lparr>hits := hits out @
                [\<lparr>h_seq = seq_name, h_start = i + 1, h_end = i + size_m motif,
                  h_strand = strand, h_motif = name motif,
                  h_pvalue = score2pval motif score, h_score = score,
                  h_match = take (size_m motif) (drop i seq)\<rparr>]\<rparr>
         else out)"

definition scan_strand ::
  "(motif_t \<Rightarrow> string \<Rightarrow> nat \<Rightarrow> int) \<Rightarrow> char \<Rightarrow> motif_t \<Rightarrow> string \<Rightarrow> string \<Rightarrow> scan_out \<Rightarrow> scan_out" where
  "scan_strand scorer strand motif seq_name seq out =
     fold (scan_window scorer strand motif seq_name seq)
          [0..<length seq - size_m motif + 1] out"

definition score_seq :: "args_t \<Rightarrow> motif_t \<Rightarrow> string \<Rightarrow> string \<Rightarrow> scan_out \<Rightarrow> scan_out" where
  "score_seq a motif seq_name seq out =
     (if length seq < size_m motif \<or> threshold motif = INT_MAX then out
      else
        let out = scan_strand score_subseq CHR ''+'' motif seq_name seq out
        in if scan_rc a then scan_strand score_subseq_rc CHR ''-'' motif seq_name seq out
           else out)"

text \<open>
  The scanning part of \<open>main\<close> for one motif: CDF, threshold, the override of the
  threshold for a consensus motif (\<open>prepare_motif\<close>), then every sequence in order.
\<close>

definition prepare_motif :: "args_t \<Rightarrow> bool \<Rightarrow> motif_t \<Rightarrow> error + motif_t" where
  "prepare_motif a has_consensus motif =
     (case fill_cdf a motif of
        Inl e \<Rightarrow> Inl e
      | Inr m1 \<Rightarrow>
          let m2 = set_threshold a m1
          in Inr (if has_consensus then m2\<lparr>threshold := max_score m2\<rparr> else m2))"

definition scan_motif ::
  "args_t \<Rightarrow> bool \<Rightarrow> motif_t \<Rightarrow> (string \<times> string) list \<Rightarrow> scan_out \<Rightarrow> error + scan_out" where
  "scan_motif a has_consensus motif seqs out =
     (case prepare_motif a has_consensus motif of
        Inl e \<Rightarrow> Inl e
      | Inr m3 \<Rightarrow> Inr (fold (\<lambda>(nm, s) out. score_seq a m3 nm s out) seqs out))"

text \<open>\<open>main\<close> with \<open>-1 consensus -s file\<close>: the settings forced for a consensus motif.\<close>

definition main_consensus ::
  "args_t \<Rightarrow> string \<Rightarrow> (string \<times> string) list \<Rightarrow> error + scan_out" where
  "main_consensus a0 consensus seqs =
     (let a = a0\<lparr>bkg := [1/4, 1/4, 1/4, 1/4], pvalue := 1, nsites := 1000, pseudocount := 1\<rparr>
      in case add_consensus_motif a consensus of
           Inl e \<Rightarrow> Inl e
         | Inr (m, printed) \<Rightarrow> scan_motif a True m seqs \<lparr>hits = [], windows_scored = 0\<rparr>)"

section \<open>The score distribution, as the specification states it\<close>

text \<open>
  All words of \<open>n\<close> letters over the alphabet \<open>0..3\<close>, the probability of a word when
  each letter is drawn independently from the background, the shifted score of a word
  (each cell score minus the smallest cell score \<open>min\<close>), and the probability that the
  shifted score of a random word of the motif's width is at least \<open>t\<close>.
\<close>

fun words :: "nat \<Rightarrow> nat list list" where
  "words 0 = [[]]"
| "words (Suc n) = concat (map (\<lambda>w. map (\<lambda>k. w @ [k]) [0..<4]) (words n))"

definition word_prob :: "args_t \<Rightarrow> nat list \<Rightarrow> real" where
  "word_prob a w = prod_list (map (\<lambda>k. bkg a ! k) w)"

definition shifted_score :: "motif_t \<Rightarrow> nat list \<Rightarrow> int" where
  "shifted_score m w = (\<Sum>i<length w. get_score_i m (w ! i) i - min_m m)"

definition right_tail :: "args_t \<Rightarrow> motif_t \<Rightarrow> int \<Rightarrow> real" where
  "right_tail a m t =
     (\<Sum>w\<leftarrow>words (size_m m). if t \<le> shifted_score m w then word_prob a w else 0)"

text \<open>The motif after \<open>complete_motifs\<close>: \<open>min\<close> and \<open>max\<close> are those of its cells.\<close>

text \<open>
  The reverse complement of a sequence: the bytes in reverse order, each standard base
  replaced by its complement (U as T), every other byte kept.
\<close>

definition complement :: "char \<Rightarrow> char" where
  "complement c =
     (if c = CHR ''A'' then CHR ''T'' else if c = CHR ''C'' then CHR ''G''
      else if c = CHR ''G'' then CHR ''C'' else if c = CHR ''T'' \<or> c = CHR ''U'' then CHR ''A''
      else if c = CHR ''a'' then CHR ''t'' else if c = CHR ''c'' then CHR ''g''
      else if c = CHR ''g'' then CHR ''c'' else if c = CHR ''t'' \<or> c = CHR ''u'' then CHR ''a''
      else c)"

definition reverse_complement :: "string \<Rightarrow> string" where
  "reverse_complement s = rev (map complement s)"

text \<open>
  The smoothed probability \<open>(p * n + c / 4) / (n + c)\<close> with \<open>n\<close> the site count and
  \<open>c\<close> the pseudocount, the score \<open>round(1000 * log2(p' / b))\<close> as the specification
  states it, and the score with the product truncated toward zero instead.
\<close>

definition smoothed :: "args_t \<Rightarrow> real \<Rightarrow> real" where
  "smoothed a p =
     (p * of_int (nsites a) + of_int (pseudocount a) / 4)
       / (of_int (nsites a) + of_int (pseudocount a))"

definition rounded_score :: "args_t \<Rightarrow> real \<Rightarrow> real \<Rightarrow> int" where
  "rounded_score a p b = round (1000 * log 2 (smoothed a p / b))"

definition truncated_score :: "args_t \<Rightarrow> real \<Rightarrow> real \<Rightarrow> int" where
  "truncated_score a p b = c_int_cast (1000 * log 2 (smoothed a p / b))"

text \<open>The output line of the window at offset \<open>i\<close>, for a given scoring function.\<close>

definition hit_at ::
  "(motif_t \<Rightarrow> string \<Rightarrow> nat \<Rightarrow> int) \<Rightarrow> char \<Rightarrow> motif_t \<Rightarrow> string \<Rightarrow> string \<Rightarrow> nat \<Rightarrow> hit" where
  "hit_at scorer strand m seq_name seq i =
     \<lparr>h_seq = seq_name, h_start = i + 1, h_end = i + size_m m, h_strand = strand,
      h_motif = name m,
      h_pvalue = cdf m ! nat (scorer m seq i - min_m m * int (size_m m)),
      h_score = scorer m seq i, h_match = take (size_m m) (drop i seq)\<rparr>"

text \<open>The largest and smallest cell of a position, and their sums over the positions.\<close>

definition position_max :: "motif_t \<Rightarrow> nat \<Rightarrow> int" where
  "position_max m i =
     max (max (get_score_i m 0 i) (get_score_i m 1 i)) (max (get_score_i m 2 i) (get_score_i m 3 i))"

definition position_min :: "motif_t \<Rightarrow> nat \<Rightarrow> int" where
  "position_min m i =
     min (min (get_score_i m 0 i) (get_score_i m 1 i)) (min (get_score_i m 2 i) (get_score_i m 3 i))"

definition motif_max_score :: "motif_t \<Rightarrow> int" where
  "motif_max_score m = (\<Sum>i<size_m m. position_max m i)"

definition motif_min_score :: "motif_t \<Rightarrow> int" where
  "motif_min_score m = (\<Sum>i<size_m m. position_min m i)"

definition completed :: "motif_t \<Rightarrow> bool" where
  "completed m \<longleftrightarrow> min_m m = get_pwm_min m \<and> max_m m = get_pwm_max m"

section \<open>Well-formed motifs\<close>

text \<open>
  \<open>amb_columns\<close>: the array has its full length and the fifth cell of each of the 50
  positions holds the ambiguity score. \<open>loaded\<close>: the state of a motif between loading
  and preparation, as \<open>init_motif\<close> and the loaders leave it.
\<close>

definition amb_columns :: "int list \<Rightarrow> bool" where
  "amb_columns p \<longleftrightarrow> length p = MAX_MOTIF_SIZE \<and> (\<forall>i<50. p ! (4 + i * 5) = AMBIGUITY_SCORE)"

definition loaded :: "motif_t \<Rightarrow> bool" where
  "loaded m \<longleftrightarrow> amb_columns (pwm m) \<and> amb_columns (pwm_rc m) \<and> size_m m \<le> 50
     \<and> threshold m = 0 \<and> max_score m = 0 \<and> min_score m = 0"

text \<open>The shifted score of one cell, the index offset \<open>s\<close> of \<open>fill_cdf\<close>.\<close>

definition shift :: "motif_t \<Rightarrow> nat \<Rightarrow> nat \<Rightarrow> nat" where
  "shift m j i = nat (get_score_i m j i - min_m m)"

text \<open>The probability that the shifted score of a random word of \<open>n\<close> letters is \<open>u\<close>.\<close>

definition point_mass :: "args_t \<Rightarrow> motif_t \<Rightarrow> nat \<Rightarrow> nat \<Rightarrow> real" where
  "point_mass a m n u =
     (\<Sum>w\<leftarrow>words n. if shifted_score m w = int u then word_prob a w else 0)"

section \<open>The stored scores, as the specification states them\<close>


text \<open>
  Position \<open>i\<close> of a motif holds the truncated scores of the probabilities \<open>p\<close>; it
  holds those of the row with the fields \<open>flds\<close>, converted and normalised as the
  program does it.
\<close>

definition column_scores :: "args_t \<Rightarrow> motif_t \<Rightarrow> nat \<Rightarrow> real list \<Rightarrow> bool" where
  "column_scores a m i p \<longleftrightarrow>
     (\<forall>k<4. get_score_i m k i = truncated_score a (p ! k) (bkg a ! k))"

definition row_stored :: "args_t \<Rightarrow> motif_t \<Rightarrow> nat \<Rightarrow> real list \<Rightarrow> bool" where
  "row_stored a m i flds \<longleftrightarrow>
     (case normalize_probs (map atof flds) of
        Inl e \<Rightarrow> False
      | Inr p \<Rightarrow> column_scores a m i p)"













text \<open>
  The state of a motif while its rows are read: the ambiguity cells and the fields that
  \<open>init_motif\<close> sets are in place, the size is the number of rows read, and every
  position inside the array holds the scores of its row.
\<close>

definition motif_base :: "motif_t \<Rightarrow> bool" where
  "motif_base m \<longleftrightarrow> amb_columns (pwm m) \<and> amb_columns (pwm_rc m)
     \<and> threshold m = 0 \<and> max_score m = 0 \<and> min_score m = 0"



section \<open>A small motif for concrete instances\<close>

text \<open>
  Two positions with integer scores, A preferred at the first and C at the second,
  built with the program's own operations.
\<close>

definition example_loaded :: motif_t where
  "example_loaded =
     (let m = set_score init_motif CHR ''A'' 0 2;
          m = set_score m CHR ''C'' 0 (- 1);
          m = set_score m CHR ''G'' 0 (- 1);
          m = set_score m CHR ''T'' 0 (- 1);
          m = set_score m CHR ''A'' 1 (- 1);
          m = set_score m CHR ''C'' 1 2;
          m = set_score m CHR ''G'' 1 (- 1);
          m = set_score m CHR ''T'' 1 (- 1)
      in m\<lparr>size_m := 2\<rparr>)"

definition example_motif :: motif_t where
  "example_motif = complete_motif example_loaded"

definition example_cdf :: "real list" where
  "example_cdf = [1, 7 / 16, 7 / 16, 7 / 16, 1 / 16, 1 / 16, 1 / 16]"

text \<open>The example motif prepared for scanning with \<open>-t 0.1\<close>.\<close>

definition example_args :: args_t where
  "example_args = default_args\<lparr>pvalue := 1 / 10\<rparr>"

definition example_prepared :: motif_t where
  "example_prepared =
     example_motif\<lparr>cdf_size := 7, cdf := example_cdf, threshold := 2, max_score := 4,
                   min_score := - 2\<rparr>"

text \<open>
  The motif of the consensus \<open>ACGT\<close> under the settings forced for a consensus: 1998
  for the letter of the consensus and -9967 for the others.
\<close>

definition consensus_args :: args_t where
  "consensus_args =
     default_args\<lparr>bkg := [1/4, 1/4, 1/4, 1/4], pvalue := 1, nsites := 1000, pseudocount := 1\<rparr>"

definition acgt_column :: "motif_t \<Rightarrow> nat \<Rightarrow> int \<Rightarrow> int \<Rightarrow> int \<Rightarrow> int \<Rightarrow> motif_t" where
  "acgt_column m pos va vc vg vt =
     set_score (set_score (set_score (set_score m CHR ''A'' pos va) CHR ''C'' pos vc)
       CHR ''G'' pos vg) CHR ''T'' pos vt"

definition acgt_loaded :: motif_t where
  "acgt_loaded =
     (let m = init_motif\<lparr>name := ''ACGT'', size_m := 4\<rparr>;
          m = acgt_column m 0 1998 (- 9967) (- 9967) (- 9967);
          m = acgt_column m 1 (- 9967) 1998 (- 9967) (- 9967);
          m = acgt_column m 2 (- 9967) (- 9967) 1998 (- 9967);
          m = acgt_column m 3 (- 9967) (- 9967) (- 9967) 1998
      in m)"

definition acgt_motif :: motif_t where
  "acgt_motif = complete_motif acgt_loaded"

definition acgt_prepared :: motif_t where
  "acgt_prepared =
     acgt_motif\<lparr>cdf_size := 47861, cdf := cdf_array consensus_args acgt_motif,
                threshold := 7992, max_score := 7992, min_score := - 39868\<rparr>"

section \<open>Basic facts\<close>

lemma c_int_wrap_id: "0 < x \<Longrightarrow> x \<le> INT_MAX \<Longrightarrow> c_int_wrap x = x"
  by (simp add: c_int_wrap_def INT_MAX_def)






lemma double_round_unit: "double_round 0 = 0" "double_round 1 = 1"
  by code_simp+

lemma atof_unit: "atof 0 = 0" "atof 1 = 1"
  by (simp_all add: atof_def double_round_unit)

lemma normalize_probs_unit_row: "normalize_probs [1, 0, 0, 0] = Inr [1, 0, 0, 0]"
  by code_simp

lemma upt_4: "[0..<4] = [0, 1, 2, 3]"
  by (simp add: upt_rec)


lemma char2index_cases: "char2index c = (if c = CHR ''A'' \<or> c = CHR ''a'' then 0 else if c = CHR ''C'' \<or> c = CHR ''c'' then 1
   else  if c = CHR ''G'' \<or> c = CHR ''g'' then 2 else if c = CHR ''T'' \<or> c = CHR ''t'' \<or> c = CHR ''U'' \<or> c = CHR ''u'' then 3 else 4)"
  apply (cases c)
  subgoal for b0 b1 b2 b3 b4 b5 b6 b7
    apply (cases b0; cases b1; cases b2; cases b3; cases b4; cases b5; cases b6; cases b7)
    apply (simp_all add: char2index_def char2index_tab_def)
    done
  done

lemma char2index_le4: "char2index c \<le> 4"
  by (simp add: char2index_cases)

lemma char2index_letters:
  "char2index CHR ''A'' = 0" "char2index CHR ''C'' = 1"
  "char2index CHR ''G'' = 2" "char2index CHR ''T'' = 3"
  by (simp_all add: char2index_cases)

lemma fold_upt_Suc: "fold f [0..<Suc n] x = f n (fold f [0..<n] x)"
  by simp

lemma fold_update_length:
  "length (fold (\<lambda>i v. v[f i := g i v]) xs v) = length v"
  by (induction xs arbitrary: v) simp_all

lemma fold_add_sum:
  "fold (\<lambda>i (s::'a::comm_monoid_add). s + f i) [0..<n] a = a + (\<Sum>i<n. f i)"
  by (induction n) (simp_all add: add.assoc)

lemma init_pwm_nth_aux:
  "j < length z \<Longrightarrow>
   fold (\<lambda>i p. p[5 * i + 4 := A]) [0..<n] z ! j
     = (if j mod 5 = 4 \<and> j div 5 < n then A else z ! j)"
proof (induction n)
  case 0
  then show ?case by simp
next
  case (Suc n)
  have len: "length (fold (\<lambda>i p. p[5 * i + 4 := A]) [0..<n] z) = length z"
    by (rule fold_update_length)
  show ?case
  proof (cases "j = 5 * n + 4")
    case True
    then show ?thesis using Suc.prems len by simp
  next
    case False
    then have "\<not> (j mod 5 = 4 \<and> j div 5 = n)" by presburger
    then show ?thesis using False Suc len by (auto simp: less_Suc_eq)
  qed
qed

lemma init_motif_pwm_nth:
  "j < 250 \<Longrightarrow> pwm init_motif ! j = (if j mod 5 = 4 then AMBIGUITY_SCORE else 0)"
  "j < 250 \<Longrightarrow> pwm_rc init_motif ! j = (if j mod 5 = 4 then AMBIGUITY_SCORE else 0)"
  by (simp_all add: init_motif_def MAX_MOTIF_SIZE_def Let_def init_pwm_nth_aux)

lemma init_motif_lengths:
  "length (pwm init_motif) = 250" "length (pwm_rc init_motif) = 250"
  by (simp_all add: init_motif_def MAX_MOTIF_SIZE_def Let_def fold_update_length)

lemma init_motif_fields:
  "size_m init_motif = 0" "threshold init_motif = 0" "max_score init_motif = 0"
  "min_score init_motif = 0" "min_m init_motif = 0" "max_m init_motif = 0"
  by (simp_all add: init_motif_def Let_def)

lemma amb_columns_init: "amb_columns (pwm init_motif)" "amb_columns (pwm_rc init_motif)"
  by (simp_all add: amb_columns_def init_motif_lengths init_motif_pwm_nth MAX_MOTIF_SIZE_def)

lemma loaded_init: "loaded init_motif"
  by (simp add: loaded_def amb_columns_init init_motif_fields)

lemma amb_columns_update:
  "amb_columns p \<Longrightarrow> k < 4 \<Longrightarrow> amb_columns (p[k + pos * 5 := v])"
proof -
  assume a: "amb_columns p" and k: "k < 4"
  have "\<And>i. k + pos * 5 \<noteq> 4 + i * 5" using k by presburger
  then show ?thesis using a by (simp add: amb_columns_def)
qed

lemma std_letter_index:
  "l \<in> set ''ACGT'' \<Longrightarrow> char2index l < 4"
  by (auto simp: char2index_cases)

lemma set_score_fields [simp]:
  "size_m (set_score m l pos v) = size_m m"
  "threshold (set_score m l pos v) = threshold m"
  "max_score (set_score m l pos v) = max_score m"
  "min_score (set_score m l pos v) = min_score m"
  "min_m (set_score m l pos v) = min_m m"
  "max_m (set_score m l pos v) = max_m m"
  "pwm_rc (set_score m l pos v) = pwm_rc m"
  "cdf (set_score m l pos v) = cdf m"
  "cdf_size (set_score m l pos v) = cdf_size m"
  "name (set_score m l pos v) = name m"
  "length (pwm (set_score m l pos v)) = length (pwm m)"
  by (simp_all add: set_score_def)

lemma set_score_rc_fields [simp]:
  "size_m (set_score_rc m l pos v) = size_m m"
  "threshold (set_score_rc m l pos v) = threshold m"
  "max_score (set_score_rc m l pos v) = max_score m"
  "min_score (set_score_rc m l pos v) = min_score m"
  "min_m (set_score_rc m l pos v) = min_m m"
  "max_m (set_score_rc m l pos v) = max_m m"
  "pwm (set_score_rc m l pos v) = pwm m"
  "cdf (set_score_rc m l pos v) = cdf m"
  "cdf_size (set_score_rc m l pos v) = cdf_size m"
  "name (set_score_rc m l pos v) = name m"
  "length (pwm_rc (set_score_rc m l pos v)) = length (pwm_rc m)"
  by (simp_all add: set_score_rc_def)

lemma loaded_set_score:
  "loaded m \<Longrightarrow> l \<in> set ''ACGT'' \<Longrightarrow> loaded (set_score m l pos v)"
  unfolding loaded_def
  by (simp add: set_score_def amb_columns_update std_letter_index del: set_simps)

lemma nth_list_update_any:
  "xs[i := v] ! j = (if i = j \<and> i < length xs then v else xs ! j)"
  by (cases "i < length xs") (simp_all add: nth_list_update list_update_beyond)

lemma cell_index_eq:
  "k < 5 \<Longrightarrow> k' < 5 \<Longrightarrow> (k + pos * 5 = k' + pos' * 5) = (k = k' \<and> pos = pos')"
  for k k' pos pos' :: nat
  by presburger


section \<open>Background validation: claim C6\<close>

text \<open>
  Claim C6 at the input \<open>-b 0,0.4,0.3,0.3\<close>: the smallest value is below
  \<open>MIN_BKG_VALUE\<close>, so \<open>MIN_BKG_VALUE\<close> is added to all four; the sum is then 1.004 and
  the division leaves the first value at 1/1004, below \<open>MIN_BKG_VALUE\<close>.
\<close>

theorem check_and_load_bkg_below_min:
  "check_and_load_bkg default_args [0, 2/5, 3/10, 3/10]
     = Inr (default_args\<lparr>bkg := [1/1004, 401/1004, 301/1004, 301/1004]\<rparr>)
   \<and> (1/1004 :: real) < MIN_BKG_VALUE"
  by (simp add: check_and_load_bkg_def VEC_MIN_def VEC_ADD_def VEC_DIV_def upt_4
      MIN_BKG_VALUE_def)

section \<open>The loops of fill_cdf\<close>

lemma cdf_add_letter_aux:
  fixes tmp :: "real list"
  assumes "n + s \<le> length c"
  shows "length (fold (cdf_add_cell tmp b s) [0..<n] c) = length c \<and>
         (\<forall>u<length c. fold (cdf_add_cell tmp b s) [0..<n] c ! u
             = c ! u + (if s \<le> u \<and> u - s < n then tmp ! (u - s) * b else 0))"
  using assms
proof (induction n)
  case 0
  then show ?case by simp
next
  case (Suc n)
  let ?c' = "fold (cdf_add_cell tmp b s) [0..<n] c"
  from Suc have len: "length ?c' = length c"
    and nth: "\<And>u. u < length c \<Longrightarrow>
         ?c' ! u = c ! u + (if s \<le> u \<and> u - s < n then tmp ! (u - s) * b else 0)"
    by simp_all
  have step: "fold (cdf_add_cell tmp b s) [0..<Suc n] c = cdf_add_cell tmp b s n ?c'" by simp
  have ns: "n + s < length c" using Suc.prems by simp
  show ?case
  proof (intro conjI allI impI)
    show "length (fold (cdf_add_cell tmp b s) [0..<Suc n] c) = length c"
      unfolding step by (simp add: cdf_add_cell_def len)
  next
    fix u assume u: "u < length c"
    show "fold (cdf_add_cell tmp b s) [0..<Suc n] c ! u
            = c ! u + (if s \<le> u \<and> u - s < Suc n then tmp ! (u - s) * b else 0)"
    proof (cases "u = n + s")
      case True
      then show ?thesis unfolding step using ns nth[OF u] len
        by (simp add: cdf_add_cell_def)
    next
      case False
      then have "(s \<le> u \<and> u - s < Suc n) = (s \<le> u \<and> u - s < n)" by auto
      then show ?thesis unfolding step using False nth[OF u] len u
        by (simp add: cdf_add_cell_def)
    qed
  qed
qed

lemma cdf_add_letter_nth:
  assumes "max_step + 1 + s \<le> length c" "u < length c"
  shows "cdf_add_letter tmp b s max_step c ! u
           = c ! u + (if s \<le> u \<and> u - s \<le> max_step then tmp ! (u - s) * b else 0)"
  using cdf_add_letter_aux[of "max_step + 1" s c tmp b] assms
  by (simp add: cdf_add_letter_def less_Suc_eq_le)

lemma cdf_add_letter_length:
  assumes "max_step + 1 + s \<le> length c"
  shows "length (cdf_add_letter tmp b s max_step c) = length c"
  using cdf_add_letter_aux[of "max_step + 1" s c tmp b] assms
  by (simp add: cdf_add_letter_def)

lemma zero_prefix_nth:
  "u < length c \<Longrightarrow>
   fold (\<lambda>j c. c[j := 0::real]) [0..<n] c ! u = (if u < n then 0 else c ! u)"
proof (induction n)
  case 0
  then show ?case by simp
next
  case (Suc n)
  have "length (fold (\<lambda>j c. c[j := 0::real]) [0..<n] c) = length c"
    by (rule fold_update_length)
  then show ?case using Suc by (auto simp: nth_list_update_any less_Suc_eq)
qed

lemma zero_prefix_length:
  "length (fold (\<lambda>j c. c[j := 0::real]) [0..<n] c) = length c"
  by (rule fold_update_length)

lemma sum_lessThan_4: "(\<Sum>j<(4::nat). f j) = f 0 + f 1 + f 2 + (f 3 :: 'a::comm_monoid_add)"
  by (simp add: eval_nat_numeral add.assoc)

lemma all_less_4: "(\<forall>j<(4::nat). P j) = (P 0 \<and> P 1 \<and> P 2 \<and> P 3)"
  by (auto simp: eval_nat_numeral less_Suc_eq)


lemma cdf_position_nth:
  assumes len: "(i + 1) * D + 1 \<le> length c"
      and sh: "\<forall>j<4. shift m j i \<le> D"
      and u: "u < length c"
  shows "cdf_position a m D i c ! u =
           (if u \<le> (i + 1) * D
            then (\<Sum>j<4. if shift m j i \<le> u \<and> u - shift m j i \<le> i * D
                         then c ! (u - shift m j i) * (bkg a ! j) else 0)
            else c ! u)"
    and "length (cdf_position a m D i c) = length c"
proof -
  define c0 where "c0 = fold (\<lambda>j c. c[j := 0::real]) [0..<i * D + D + 1] c"
  define c1 where "c1 = cdf_add_letter c (bkg a ! 0) (shift m 0 i) (i * D) c0"
  define c2 where "c2 = cdf_add_letter c (bkg a ! 1) (shift m 1 i) (i * D) c1"
  define c3 where "c3 = cdf_add_letter c (bkg a ! 2) (shift m 2 i) (i * D) c2"
  define c4 where "c4 = cdf_add_letter c (bkg a ! 3) (shift m 3 i) (i * D) c3"
  have res: "cdf_position a m D i c = c4"
    by (simp add: cdf_position_def Let_def upt_4 c0_def c1_def c2_def c3_def c4_def shift_def)
  have s: "shift m 0 i \<le> D" "shift m 1 i \<le> D" "shift m 2 i \<le> D" "shift m 3 i \<le> D"
    using sh by (simp_all add: all_less_4)
  have l0: "length c0 = length c" unfolding c0_def by (rule zero_prefix_length)
  have b: "\<And>j. shift m j i \<le> D \<Longrightarrow> i * D + 1 + shift m j i \<le> length c"
    using len by simp
  have l1: "length c1 = length c" unfolding c1_def using cdf_add_letter_length b s l0 by simp
  have l2: "length c2 = length c" unfolding c2_def using cdf_add_letter_length b s l1 by simp
  have l3: "length c3 = length c" unfolding c3_def using cdf_add_letter_length b s l2 by simp
  have l4: "length c4 = length c" unfolding c4_def using cdf_add_letter_length b s l3 by simp
  show "length (cdf_position a m D i c) = length c" using res l4 by simp
  have n0: "c0 ! u = (if u < i * D + D + 1 then 0 else c ! u)"
    unfolding c0_def using u by (rule zero_prefix_nth)
  have n1: "c1 ! u = c0 ! u + (if shift m 0 i \<le> u \<and> u - shift m 0 i \<le> i * D
                               then c ! (u - shift m 0 i) * (bkg a ! 0) else 0)"
    unfolding c1_def using b s l0 u by (simp add: cdf_add_letter_nth)
  have n2: "c2 ! u = c1 ! u + (if shift m 1 i \<le> u \<and> u - shift m 1 i \<le> i * D
                               then c ! (u - shift m 1 i) * (bkg a ! 1) else 0)"
    unfolding c2_def using b s l1 u by (simp add: cdf_add_letter_nth)
  have n3: "c3 ! u = c2 ! u + (if shift m 2 i \<le> u \<and> u - shift m 2 i \<le> i * D
                               then c ! (u - shift m 2 i) * (bkg a ! 2) else 0)"
    unfolding c3_def using b s l2 u by (simp add: cdf_add_letter_nth)
  have n4: "c4 ! u = c3 ! u + (if shift m 3 i \<le> u \<and> u - shift m 3 i \<le> i * D
                               then c ! (u - shift m 3 i) * (bkg a ! 3) else 0)"
    unfolding c4_def using b s l3 u by (simp add: cdf_add_letter_nth)
  show "cdf_position a m D i c ! u =
           (if u \<le> (i + 1) * D
            then (\<Sum>j<4. if shift m j i \<le> u \<and> u - shift m j i \<le> i * D
                         then c ! (u - shift m j i) * (bkg a ! j) else 0)
            else c ! u)"
  proof (cases "u \<le> (i + 1) * D")
    case True
    then have "c0 ! u = 0" using n0 by simp
    then show ?thesis using True unfolding res n4 n3 n2 n1 sum_lessThan_4 by simp
  next
    case False
    then have c0u: "c0 ! u = c ! u" using n0 by simp
    have "\<And>j. shift m j i \<le> D \<Longrightarrow> \<not> (shift m j i \<le> u \<and> u - shift m j i \<le> i * D)"
      using False by auto
    then show ?thesis using False s c0u unfolding res n4 n3 n2 n1 by simp
  qed
qed

lemma cdf_position_length:
  assumes "(i + 1) * D + 1 \<le> length c" and "\<forall>j<4. shift m j i \<le> D"
  shows "length (cdf_position a m D i c) = length c"
proof -
  have "0 < length c" using assms(1) by (cases c) simp_all
  from cdf_position_nth(2)[OF assms this] show ?thesis .
qed

section \<open>Smallest and largest cell\<close>

lemma fold_max_ge:
  fixes f :: "'a \<Rightarrow> int"
  shows "a \<le> fold (\<lambda>x mx. if f x > mx then f x else mx) xs a"
proof (induction xs arbitrary: a)
  case Nil
  then show ?case by simp
next
  case (Cons x xs)
  have "a \<le> (if f x > a then f x else a)" by simp
  also have "\<dots> \<le> fold (\<lambda>x mx. if f x > mx then f x else mx) xs (if f x > a then f x else a)"
    by (rule Cons.IH)
  finally show ?case by simp
qed

lemma fold_max_mem:
  fixes f :: "'a \<Rightarrow> int"
  shows "x \<in> set xs \<Longrightarrow> f x \<le> fold (\<lambda>x mx. if f x > mx then f x else mx) xs a"
proof (induction xs arbitrary: a)
  case Nil
  then show ?case by simp
next
  case (Cons y ys)
  show ?case
  proof (cases "x = y")
    case True
    have "f x \<le> (if f y > a then f y else a)" using True by simp
    also have "\<dots> \<le> fold (\<lambda>x mx. if f x > mx then f x else mx) ys (if f y > a then f y else a)"
      by (rule fold_max_ge)
    finally show ?thesis by simp
  next
    case False
    then have "x \<in> set ys" using Cons.prems by simp
    then show ?thesis using Cons.IH by simp
  qed
qed

lemma fold_min_le:
  fixes f :: "'a \<Rightarrow> int"
  shows "fold (\<lambda>x mn. if f x < mn then f x else mn) xs a \<le> a"
proof (induction xs arbitrary: a)
  case Nil
  then show ?case by simp
next
  case (Cons x xs)
  have "fold (\<lambda>x mn. if f x < mn then f x else mn) xs (if f x < a then f x else a)
          \<le> (if f x < a then f x else a)"
    by (rule Cons.IH)
  also have "\<dots> \<le> a" by simp
  finally show ?case by simp
qed

lemma fold_min_mem:
  fixes f :: "'a \<Rightarrow> int"
  shows "x \<in> set xs \<Longrightarrow> fold (\<lambda>x mn. if f x < mn then f x else mn) xs a \<le> f x"
proof (induction xs arbitrary: a)
  case Nil
  then show ?case by simp
next
  case (Cons y ys)
  show ?case
  proof (cases "x = y")
    case True
    have "fold (\<lambda>x mn. if f x < mn then f x else mn) ys (if f y < a then f y else a)
            \<le> (if f y < a then f y else a)"
      by (rule fold_min_le)
    also have "\<dots> \<le> f x" using True by simp
    finally show ?thesis by simp
  next
    case False
    then have "x \<in> set ys" using Cons.prems by simp
    then show ?thesis using Cons.IH by simp
  qed
qed

lemma get_pwm_max_aux:
  defines "G \<equiv> \<lambda>m pos mx. fold (\<lambda>l mx. if get_score_i m l pos > mx then get_score_i m l pos else mx) [0..<4] mx"
  shows "a \<le> fold (G m) [0..<n] a \<and> (\<forall>pos<n. \<forall>l<4. get_score_i m l pos \<le> fold (G m) [0..<n] a)"
proof (induction n)
  case 0
  then show ?case by simp
next
  case (Suc n)
  let ?r = "fold (G m) [0..<n] a"
  have step: "fold (G m) [0..<Suc n] a = G m n ?r" by simp
  have ge: "?r \<le> G m n ?r" unfolding G_def by (rule fold_max_ge)
  have new: "\<And>l. l < 4 \<Longrightarrow> get_score_i m l n \<le> G m n ?r"
    unfolding G_def by (rule fold_max_mem) simp
  show ?case unfolding step using Suc ge new
    by (auto simp: less_Suc_eq intro: order_trans)
qed

lemma get_pwm_max_ge:
  "0 \<le> get_pwm_max m" "pos < size_m m \<Longrightarrow> l < 4 \<Longrightarrow> get_score_i m l pos \<le> get_pwm_max m"
  using get_pwm_max_aux[where m=m and n="size_m m" and a=0] by (simp_all add: get_pwm_max_def Let_def)

lemma get_pwm_min_aux:
  defines "G \<equiv> \<lambda>m pos mn. fold (\<lambda>l mn. if get_score_i m l pos < mn then get_score_i m l pos else mn) [0..<4] mn"
  shows "fold (G m) [0..<n] a \<le> a \<and> (\<forall>pos<n. \<forall>l<4. fold (G m) [0..<n] a \<le> get_score_i m l pos)"
proof (induction n)
  case 0
  then show ?case by simp
next
  case (Suc n)
  let ?r = "fold (G m) [0..<n] a"
  have step: "fold (G m) [0..<Suc n] a = G m n ?r" by simp
  have le: "G m n ?r \<le> ?r" unfolding G_def by (rule fold_min_le)
  have new: "\<And>l. l < 4 \<Longrightarrow> G m n ?r \<le> get_score_i m l n"
    unfolding G_def by (rule fold_min_mem) simp
  show ?case unfolding step using Suc le new
    by (auto simp: less_Suc_eq intro: order_trans)
qed

lemma get_pwm_min_le:
  "get_pwm_min m \<le> 0" "pos < size_m m \<Longrightarrow> l < 4 \<Longrightarrow> get_pwm_min m \<le> get_score_i m l pos"
  using get_pwm_min_aux[where m=m and n="size_m m" and a=0] by (simp_all add: get_pwm_min_def Let_def)

lemma completed_range:
  assumes "completed m"
  shows "min_m m \<le> 0" "0 \<le> max_m m"
    and "pos < size_m m \<Longrightarrow> l < 4 \<Longrightarrow> min_m m \<le> get_score_i m l pos"
    and "pos < size_m m \<Longrightarrow> l < 4 \<Longrightarrow> get_score_i m l pos \<le> max_m m"
  using assms get_pwm_min_le get_pwm_max_ge by (simp_all add: completed_def)

lemma completed_shift:
  assumes "completed m" "pos < size_m m" "l < 4"
  shows "shift m l pos \<le> nat (max_m m - min_m m)"
    and "int (shift m l pos) = get_score_i m l pos - min_m m"
  using completed_range(3,4)[OF assms] by (simp_all add: shift_def)

section \<open>Words and their scores\<close>

lemma words_length: "w \<in> set (words n) \<Longrightarrow> length w = n"
  by (induction n arbitrary: w) auto

lemma words_letters: "w \<in> set (words n) \<Longrightarrow> k \<in> set w \<Longrightarrow> k < 4"
  by (induction n arbitrary: w) auto

lemma sum_list_words_Suc:
  fixes F :: "nat list \<Rightarrow> real"
  shows "(\<Sum>w\<leftarrow>words (Suc n). F w)
           = (\<Sum>w\<leftarrow>words n. F (w @ [0]) + F (w @ [1]) + F (w @ [2]) + F (w @ [3]))"
proof -
  have "\<And>ws. (\<Sum>w\<leftarrow>concat (map (\<lambda>w. map (\<lambda>k. w @ [k]) [0, 1, 2, 3]) ws). F w)
           = (\<Sum>w\<leftarrow>ws. F (w @ [0]) + F (w @ [1]) + F (w @ [2]) + F (w @ [3]))"
    subgoal for ws by (induction ws) (simp_all add: add.assoc)
    done
  then show ?thesis by (simp add: upt_4)
qed

lemma shifted_score_snoc:
  "shifted_score m (w @ [k]) = shifted_score m w + (get_score_i m k (length w) - min_m m)"
  by (simp add: shifted_score_def nth_append)

lemma word_prob_snoc: "word_prob a (w @ [k]) = word_prob a w * (bkg a ! k)"
  by (simp add: word_prob_def)

lemma shifted_score_range:
  assumes "completed m"
  shows "n \<le> size_m m \<Longrightarrow> w \<in> set (words n) \<Longrightarrow>
         0 \<le> shifted_score m w \<and> shifted_score m w \<le> int n * (max_m m - min_m m)"
proof (induction n arbitrary: w)
  case 0
  then show ?case by (simp add: shifted_score_def)
next
  case (Suc n)
  from Suc.prems(2) obtain v k where w: "w = v @ [k]" and v: "v \<in> set (words n)" and k: "k < 4"
    by auto
  have len: "length v = n" using v by (rule words_length)
  have n: "n < size_m m" using Suc.prems(1) by simp
  have r: "min_m m \<le> get_score_i m k n" "get_score_i m k n \<le> max_m m"
    using completed_range(3,4)[OF assms n k] by simp_all
  have ih: "0 \<le> shifted_score m v" "shifted_score m v \<le> int n * (max_m m - min_m m)"
    using Suc.IH[OF _ v] n by simp_all
  show ?case unfolding w shifted_score_snoc len using r ih
    by (simp add: algebra_simps)
qed

lemma sum_list_indicator_cong:
  fixes f g :: "'a \<Rightarrow> real"
  assumes "\<And>x. x \<in> set xs \<Longrightarrow> f x = g x"
  shows "(\<Sum>x\<leftarrow>xs. f x) = (\<Sum>x\<leftarrow>xs. g x)"
  using assms by (induction xs) simp_all

lemma sum_list_add4:
  fixes f0 f1 f2 f3 :: "'a \<Rightarrow> real"
  shows "(\<Sum>x\<leftarrow>xs. f0 x + f1 x + f2 x + f3 x)
           = (\<Sum>x\<leftarrow>xs. f0 x) + (\<Sum>x\<leftarrow>xs. f1 x) + (\<Sum>x\<leftarrow>xs. f2 x) + (\<Sum>x\<leftarrow>xs. f3 x)"
  by (induction xs) simp_all

lemma point_mass_letter:
  assumes "completed m" "n < size_m m" "j < 4"
  shows "(\<Sum>w\<leftarrow>words n. if shifted_score m (w @ [j]) = int u then word_prob a (w @ [j]) else 0)
           = (if shift m j n \<le> u then point_mass a m n (u - shift m j n) * (bkg a ! j) else 0)"
proof -
  have sj: "int (shift m j n) = get_score_i m j n - min_m m"
    using completed_shift(2)[OF assms] .
  have eq: "\<And>w. w \<in> set (words n) \<Longrightarrow>
      (if shifted_score m (w @ [j]) = int u then word_prob a (w @ [j]) else 0)
       = (if shift m j n \<le> u
          then (if shifted_score m w = int (u - shift m j n) then word_prob a w else 0) * (bkg a ! j)
          else 0)"
  proof -
    fix w assume w: "w \<in> set (words n)"
    have len: "length w = n" using w by (rule words_length)
    have nonneg: "0 \<le> shifted_score m w"
      using shifted_score_range[OF assms(1) _ w] assms(2) by simp
    show "(if shifted_score m (w @ [j]) = int u then word_prob a (w @ [j]) else 0)
       = (if shift m j n \<le> u
          then (if shifted_score m w = int (u - shift m j n) then word_prob a w else 0) * (bkg a ! j)
          else 0)"
    proof (cases "shift m j n \<le> u")
      case True
      then have "(shifted_score m w + int (shift m j n) = int u)
                   = (shifted_score m w = int (u - shift m j n))"
        by (simp add: of_nat_diff) linarith
      then show ?thesis using True unfolding shifted_score_snoc len sj[symmetric] word_prob_snoc
        by simp
    next
      case False
      then have "shifted_score m w + int (shift m j n) \<noteq> int u" using nonneg by linarith
      then show ?thesis using False unfolding shifted_score_snoc len sj[symmetric]
        by simp
    qed
  qed
  have "(\<Sum>w\<leftarrow>words n. if shifted_score m (w @ [j]) = int u then word_prob a (w @ [j]) else 0)
          = (\<Sum>w\<leftarrow>words n. if shift m j n \<le> u
          then (if shifted_score m w = int (u - shift m j n) then word_prob a w else 0) * (bkg a ! j)
          else 0)"
    by (rule sum_list_indicator_cong) (rule eq)
  also have "\<dots> = (if shift m j n \<le> u then point_mass a m n (u - shift m j n) * (bkg a ! j) else 0)"
    by (simp add: point_mass_def sum_list_mult_const)
  finally show ?thesis .
qed

lemma point_mass_Suc:
  assumes "completed m" "n < size_m m"
  shows "point_mass a m (Suc n) u
           = (\<Sum>j<4. if shift m j n \<le> u then point_mass a m n (u - shift m j n) * (bkg a ! j)
                        else 0)"
proof -
  have "point_mass a m (Suc n) u
          = (\<Sum>w\<leftarrow>words n.
               (if shifted_score m (w @ [0]) = int u then word_prob a (w @ [0]) else 0)
             + (if shifted_score m (w @ [1]) = int u then word_prob a (w @ [1]) else 0)
             + (if shifted_score m (w @ [2]) = int u then word_prob a (w @ [2]) else 0)
             + (if shifted_score m (w @ [3]) = int u then word_prob a (w @ [3]) else 0))"
    unfolding point_mass_def by (rule sum_list_words_Suc)
  also have "\<dots> = (\<Sum>j<4. if shift m j n \<le> u
                          then point_mass a m n (u - shift m j n) * (bkg a ! j) else 0)"
    unfolding sum_list_add4 sum_lessThan_4
    using point_mass_letter[OF assms, where j=0 and a=a and u=u]
      point_mass_letter[OF assms, where j=1 and a=a and u=u]
      point_mass_letter[OF assms, where j=2 and a=a and u=u]
      point_mass_letter[OF assms, where j=3 and a=a and u=u]
    by simp
  finally show ?thesis .
qed

lemma point_mass_beyond:
  assumes "completed m" "n \<le> size_m m" "n * nat (max_m m - min_m m) < u"
  shows "point_mass a m n u = 0"
proof -
  have "\<And>w. w \<in> set (words n) \<Longrightarrow>
          (if shifted_score m w = int u then word_prob a w else 0) = 0"
  proof -
    fix w assume w: "w \<in> set (words n)"
    have "shifted_score m w \<le> int n * (max_m m - min_m m)"
      using shifted_score_range[OF assms(1,2) w] by simp
    also have "\<dots> = int (n * nat (max_m m - min_m m))"
    proof -
      have "0 \<le> max_m m - min_m m" using completed_range(1,2)[OF assms(1)] by simp
      then show ?thesis by simp
    qed
    also have "\<dots> < int u" using assms(3) by (simp only: of_nat_less_iff)
    finally show "(if shifted_score m w = int u then word_prob a w else 0) = 0" by simp
  qed
  then show ?thesis unfolding point_mass_def
    using sum_list_indicator_cong[of "words n" _ "\<lambda>_. 0"] by simp
qed

section \<open>The PDF computed by fill_cdf\<close>

lemma pdf_loop_invariant:
  assumes c: "completed m"
  defines "D \<equiv> nat (max_m m - min_m m)"
  shows "n \<le> size_m m \<Longrightarrow>
         length (fold (cdf_position a m D) [0..<n] (replicate (size_m m * D + 1) 1))
           = size_m m * D + 1
         \<and> (\<forall>u\<le>n * D. fold (cdf_position a m D) [0..<n] (replicate (size_m m * D + 1) 1) ! u
                         = point_mass a m n u)"
proof (induction n)
  case 0
  then show ?case by (simp add: point_mass_def shifted_score_def word_prob_def)
next
  case (Suc n)
  let ?L = "size_m m * D + 1"
  let ?c = "fold (cdf_position a m D) [0..<n] (replicate ?L 1)"
  have n: "n < size_m m" using Suc.prems by simp
  from Suc.IH n have len: "length ?c = ?L"
    and ih: "\<And>u. u \<le> n * D \<Longrightarrow> ?c ! u = point_mass a m n u" by simp_all
  have step: "fold (cdf_position a m D) [0..<Suc n] (replicate ?L 1) = cdf_position a m D n ?c"
    by simp
  have "(n + 1) * D \<le> size_m m * D" using n by (intro mult_le_mono1) simp
  then have room: "(n + 1) * D + 1 \<le> length ?c" using len by simp
  have sh: "\<forall>j<4. shift m j n \<le> D"
    unfolding D_def using completed_shift(1)[OF c n] by simp
  show ?case
  proof (intro conjI allI impI)
    show "length (fold (cdf_position a m D) [0..<Suc n] (replicate ?L 1)) = ?L"
      unfolding step using cdf_position_length[OF room sh, of a] len by simp
  next
    fix u assume u: "u \<le> Suc n * D"
    then have ul: "u < length ?c" using room by simp
    have tm: "\<And>j. (if shift m j n \<le> u \<and> u - shift m j n \<le> n * D
                        then ?c ! (u - shift m j n) * (bkg a ! j) else 0)
                 = (if shift m j n \<le> u
                    then point_mass a m n (u - shift m j n) * (bkg a ! j) else 0)"
    proof -
      fix j
      show "(if shift m j n \<le> u \<and> u - shift m j n \<le> n * D
                        then ?c ! (u - shift m j n) * (bkg a ! j) else 0)
                 = (if shift m j n \<le> u
                    then point_mass a m n (u - shift m j n) * (bkg a ! j) else 0)"
      proof (cases "u - shift m j n \<le> n * D")
        case True
        then show ?thesis using ih by simp
      next
        case False
        then have "point_mass a m n (u - shift m j n) = 0"
          using point_mass_beyond[OF c, of n "u - shift m j n" a] n unfolding D_def by simp
        then show ?thesis using False by simp
      qed
    qed
    show "fold (cdf_position a m D) [0..<Suc n] (replicate ?L 1) ! u = point_mass a m (Suc n) u"
      unfolding step cdf_position_nth(1)[OF room sh ul] point_mass_Suc[OF c n]
      using u by (simp add: tm)
  qed
qed

lemma pdf_array_length:
  "completed m \<Longrightarrow> length (pdf_array a m) = size_m m * nat (max_m m - min_m m) + 1"
  using pdf_loop_invariant[of m "size_m m" a] by (simp add: pdf_array_def Let_def)

lemma pdf_array_nth:
  "completed m \<Longrightarrow> u < length (pdf_array a m) \<Longrightarrow>
   pdf_array a m ! u = point_mass a m (size_m m) u"
  using pdf_loop_invariant[of m "size_m m" a] by (simp add: pdf_array_def Let_def)

section \<open>Normalisation and suffix sums\<close>

lemma divide_loop_nth:
  "t < length c \<Longrightarrow>
   fold (\<lambda>i c. c[i := c ! i / (s::real)]) [0..<n] c ! t = (if t < n then c ! t / s else c ! t)"
proof (induction n)
  case 0
  then show ?case by simp
next
  case (Suc n)
  have "length (fold (\<lambda>i c. c[i := c ! i / s]) [0..<n] c) = length c"
    by (rule fold_update_length)
  then show ?case using Suc by (auto simp: nth_list_update_any less_Suc_eq)
qed

lemma renormalize_length: "length (renormalize c) = length c"
  by (simp add: renormalize_def Let_def fold_update_length)

lemma renormalize_nth:
  "t < length c \<Longrightarrow>
   renormalize c ! t =
     (if \<bar>(\<Sum>i<length c. c ! i) - 1\<bar> > 1 / 10000 then c ! t / (\<Sum>i<length c. c ! i) else c ! t)"
  by (simp add: renormalize_def Let_def fold_add_sum divide_loop_nth)

lemma suffix_loop:
  fixes c :: "real list"
  shows "n < length c \<Longrightarrow>
     length (fold (\<lambda>i c. c[i := c ! i + c ! (i + 1)]) (rev [0..<n]) c) = length c
     \<and> (\<forall>t<length c. fold (\<lambda>i c. c[i := c ! i + c ! (i + 1)]) (rev [0..<n]) c ! t
            = (if t < n then (\<Sum>u = t..n. c ! u) else c ! t))"
proof (induction n arbitrary: c)
  case 0
  then show ?case by simp
next
  case (Suc n)
  let ?f = "\<lambda>i (c::real list). c[i := c ! i + c ! (i + 1)]"
  let ?c' = "c[n := c ! n + c ! (n + 1)]"
  have step: "fold ?f (rev [0..<Suc n]) c = fold ?f (rev [0..<n]) ?c'" by simp
  have n: "n < length ?c'" using Suc.prems by simp
  from Suc.IH[OF n] have len: "length (fold ?f (rev [0..<n]) ?c') = length c"
    and nth: "\<And>t. t < length c \<Longrightarrow> fold ?f (rev [0..<n]) ?c' ! t
                = (if t < n then (\<Sum>u = t..n. ?c' ! u) else ?c' ! t)"
    by simp_all
  show ?case
  proof (intro conjI allI impI)
    show "length (fold ?f (rev [0..<Suc n]) c) = length c" unfolding step by (rule len)
  next
    fix t assume t: "t < length c"
    show "fold ?f (rev [0..<Suc n]) c ! t = (if t < Suc n then (\<Sum>u = t..Suc n. c ! u) else c ! t)"
    proof (cases "t < n")
      case True
      have "(\<Sum>u = t..n. ?c' ! u) = (\<Sum>u = t..<n. ?c' ! u) + ?c' ! n"
        using True by (simp add: sum.last_plus add.commute atLeastLessThanSuc_atLeastAtMost[symmetric] )
      also have "(\<Sum>u = t..<n. ?c' ! u) = (\<Sum>u = t..<n. c ! u)"
        by (rule sum.cong) simp_all
      also have "?c' ! n = c ! n + c ! (n + 1)" using Suc.prems by simp
      also have "(\<Sum>u = t..<n. c ! u) + (c ! n + c ! (n + 1)) = (\<Sum>u = t..Suc n. c ! u)"
        using True by (simp add: atLeastLessThanSuc_atLeastAtMost[symmetric] add.assoc)
      finally show ?thesis unfolding step nth[OF t] using True by simp
    next
      case False
      show ?thesis
      proof (cases "t = n")
        case True
        then show ?thesis unfolding step nth[OF t] using Suc.prems by simp
      next
        case False
        then have "n < t" using \<open>\<not> t < n\<close> by simp
        then show ?thesis unfolding step nth[OF t] using Suc.prems by simp
      qed
    qed
  qed
qed

lemma suffix_sums_length: "length (suffix_sums c) = length c"
  by (simp add: suffix_sums_def fold_update_length)

lemma suffix_sums_nth:
  assumes "t < length c"
  shows "suffix_sums c ! t = (\<Sum>u = t..<length c. c ! u)"
proof -
  have n: "length c - 1 < length c" using assms by simp
  have "suffix_sums c ! t = (if t < length c - 1 then (\<Sum>u = t..length c - 1. c ! u) else c ! t)"
    using suffix_loop[OF n] assms by (simp add: suffix_sums_def)
  also have "\<dots> = (\<Sum>u = t..<length c. c ! u)"
  proof (cases "t < length c - 1")
    case True
    have "{t..length c - 1} = {t..<length c}" using assms by auto
    then show ?thesis using True by simp
  next
    case False
    then have "t = length c - 1" using assms by simp
    then have "{t..<length c} = {t}" using assms by auto
    then show ?thesis using False by simp
  qed
  finally show ?thesis .
qed

section \<open>The right tail\<close>

lemma sum_sum_list_swap:
  fixes g :: "nat \<Rightarrow> 'b \<Rightarrow> real"
  shows "(\<Sum>u\<in>A. \<Sum>w\<leftarrow>ws. g u w) = (\<Sum>w\<leftarrow>ws. \<Sum>u\<in>A. g u w)"
  by (induction ws) (simp_all add: sum.distrib)

lemma sum_indicator_interval:
  fixes p :: real
  shows "(\<Sum>u = t..<L. if x = int u then p else 0) = (if int t \<le> x \<and> x < int L then p else 0)"
proof (cases "0 \<le> x")
  case True
  have "\<And>u. (x = int u) = (u = nat x)" using True by auto
  then have "(\<Sum>u = t..<L. if x = int u then p else 0) = (\<Sum>u = t..<L. if u = nat x then p else 0)"
    by simp
  also have "\<dots> = (if nat x \<in> {t..<L} then p else 0)" by (simp add: sum.delta)
  also have "\<dots> = (if int t \<le> x \<and> x < int L then p else 0)" using True by auto
  finally show ?thesis .
next
  case False
  then have "\<And>u. x \<noteq> int u" by auto
  then show ?thesis using False by simp
qed

lemma sum_point_mass:
  assumes c: "completed m"
  shows "(\<Sum>u = t..<size_m m * nat (max_m m - min_m m) + 1. point_mass a m (size_m m) u)
           = right_tail a m (int t)"
proof -
  let ?L = "size_m m * nat (max_m m - min_m m) + 1"
  have "(\<Sum>u = t..<?L. point_mass a m (size_m m) u)
          = (\<Sum>w\<leftarrow>words (size_m m). \<Sum>u = t..<?L.
               if shifted_score m w = int u then word_prob a w else 0)"
    unfolding point_mass_def by (rule sum_sum_list_swap)
  also have "\<dots> = (\<Sum>w\<leftarrow>words (size_m m).
                      if int t \<le> shifted_score m w \<and> shifted_score m w < int ?L
                      then word_prob a w else 0)"
    unfolding sum_indicator_interval ..
  also have "\<dots> = (\<Sum>w\<leftarrow>words (size_m m).
                      if int t \<le> shifted_score m w then word_prob a w else 0)"
  proof (rule sum_list_indicator_cong)
    fix w assume w: "w \<in> set (words (size_m m))"
    have "shifted_score m w \<le> int (size_m m) * (max_m m - min_m m)"
      using shifted_score_range[OF c _ w] by simp
    also have "\<dots> = int (size_m m * nat (max_m m - min_m m))"
    proof -
      have "0 \<le> max_m m - min_m m" using completed_range(1,2)[OF c] by simp
      then show ?thesis by simp
    qed
    finally have "shifted_score m w < int ?L" by simp
    then show "(if int t \<le> shifted_score m w \<and> shifted_score m w < int ?L
                then word_prob a w else 0)
             = (if int t \<le> shifted_score m w then word_prob a w else 0)"
      by simp
  qed
  finally show ?thesis by (simp add: right_tail_def)
qed

lemma pdf_array_sum:
  assumes c: "completed m"
  shows "(\<Sum>i<length (pdf_array a m). pdf_array a m ! i) = right_tail a m 0"
proof -
  let ?L = "size_m m * nat (max_m m - min_m m) + 1"
  have len: "length (pdf_array a m) = ?L" using c by (rule pdf_array_length)
  have "(\<Sum>i<length (pdf_array a m). pdf_array a m ! i)
          = (\<Sum>i = 0..<?L. pdf_array a m ! i)"
    unfolding len by (simp add: atLeast0LessThan)
  also have "\<dots> = (\<Sum>i = 0..<?L. point_mass a m (size_m m) i)"
    by (rule sum.cong) (simp_all add: pdf_array_nth[OF c] len)
  also have "\<dots> = right_tail a m (int 0)" using c by (rule sum_point_mass)
  finally show ?thesis by simp
qed

lemma sum_if_divide:
  fixes f :: "nat \<Rightarrow> real"
  shows "(\<Sum>u\<in>A. if P then f u / d else f u) = (if P then (\<Sum>u\<in>A. f u) / d else (\<Sum>u\<in>A. f u))"
  by (simp add: sum_divide_distrib)

lemma cdf_array_length:
  "completed m \<Longrightarrow> length (cdf_array a m) = size_m m * nat (max_m m - min_m m) + 1"
  by (simp add: cdf_array_def suffix_sums_length renormalize_length pdf_array_length)

lemma cdf_array_nth:
  assumes c: "completed m" and t: "t < size_m m * nat (max_m m - min_m m) + 1"
  shows "cdf_array a m ! t =
           (if \<bar>right_tail a m 0 - 1\<bar> > 1 / 10000
            then right_tail a m (int t) / right_tail a m 0
            else right_tail a m (int t))"
proof -
  let ?L = "size_m m * nat (max_m m - min_m m) + 1"
  let ?p = "pdf_array a m"
  have len: "length ?p = ?L" using c by (rule pdf_array_length)
  have rl: "length (renormalize ?p) = ?L" by (simp add: renormalize_length len)
  have "cdf_array a m ! t = (\<Sum>u = t..<?L. renormalize ?p ! u)"
    using suffix_sums_nth[of t "renormalize ?p"] t rl by (simp add: cdf_array_def)
  also have "\<dots> = (\<Sum>u = t..<?L.
                      if \<bar>right_tail a m 0 - 1\<bar> > 1 / 10000
                      then point_mass a m (size_m m) u / right_tail a m 0
                      else point_mass a m (size_m m) u)"
  proof (rule sum.cong)
    fix u assume "u \<in> {t..<?L}"
    then have ul: "u < length ?p" using len by simp
    have "renormalize ?p ! u =
            (if \<bar>(\<Sum>i<length ?p. ?p ! i) - 1\<bar> > 1 / 10000
             then ?p ! u / (\<Sum>i<length ?p. ?p ! i) else ?p ! u)"
      using ul by (rule renormalize_nth)
    then show "renormalize ?p ! u =
            (if \<bar>right_tail a m 0 - 1\<bar> > 1 / 10000
             then point_mass a m (size_m m) u / right_tail a m 0
             else point_mass a m (size_m m) u)"
      by (simp only: pdf_array_sum[OF c] pdf_array_nth[OF c ul])
  qed simp
  also have "\<dots> = (if \<bar>right_tail a m 0 - 1\<bar> > 1 / 10000
                     then (\<Sum>u = t..<?L. point_mass a m (size_m m) u) / right_tail a m 0
                     else (\<Sum>u = t..<?L. point_mass a m (size_m m) u))"
    by (rule sum_if_divide)
  finally show ?thesis unfolding sum_point_mass[OF c] .
qed

lemma sum_word_prob:
  "(\<Sum>w\<leftarrow>words n. word_prob a w) = (bkg a ! 0 + bkg a ! 1 + bkg a ! 2 + bkg a ! 3) ^ n"
proof (induction n)
  case 0
  then show ?case by (simp add: word_prob_def)
next
  case (Suc n)
  have "(\<Sum>w\<leftarrow>words (Suc n). word_prob a w)
          = (\<Sum>w\<leftarrow>words n. word_prob a w * (bkg a ! 0 + bkg a ! 1 + bkg a ! 2 + bkg a ! 3))"
    unfolding sum_list_words_Suc word_prob_snoc by (simp add: algebra_simps)
  then show ?case using Suc by (simp add: sum_list_mult_const)
qed

lemma right_tail_0:
  assumes c: "completed m"
  shows "right_tail a m 0 = (bkg a ! 0 + bkg a ! 1 + bkg a ! 2 + bkg a ! 3) ^ size_m m"
proof -
  have "right_tail a m 0 = (\<Sum>w\<leftarrow>words (size_m m). word_prob a w)"
    unfolding right_tail_def
  proof (rule sum_list_indicator_cong)
    fix w assume w: "w \<in> set (words (size_m m))"
    have "0 \<le> shifted_score m w" using shifted_score_range[OF c order_refl w] by simp
    then show "(if 0 \<le> shifted_score m w then word_prob a w else 0) = word_prob a w" by simp
  qed
  then show ?thesis by (simp add: sum_word_prob)
qed

section \<open>The example motif, evaluated\<close>

lemma example_completed: "completed example_motif"
  unfolding completed_def by code_simp

lemma example_fill_cdf:
  "fill_cdf default_args example_motif
     = Inr (example_motif\<lparr>cdf_size := 7, cdf := example_cdf\<rparr>)"
proof -
  have "cdf_array default_args example_motif = example_cdf" by code_simp
  moreover have "max_m example_motif = 2" "min_m example_motif = - 1" "size_m example_motif = 2"
    by code_simp+
  ultimately show ?thesis by (simp add: fill_cdf_def MAX_CDF_SIZE_def)
qed

section \<open>Claim C2: the CDF is the exact right tail\<close>

text \<open>
  C2. For a completed motif of width \<open>W\<close> on which \<open>fill_cdf\<close> succeeds, the array
  \<open>cdf\<close> has length \<open>R = W * (max - min) + 1\<close> and, for every index \<open>t\<close>, \<open>cdf[t]\<close>
  is the probability that the sum of the shifted cell scores of \<open>W\<close> letters drawn
  independently from the background is at least \<open>t\<close>, divided by the total mass when
  that total is off 1 by more than 0.0001 (the defensive renormalisation). With a
  background that sums to 1 it is that probability itself. \<open>score2pval\<close> reads
  \<open>cdf[score - W * min]\<close>.
\<close>

theorem fill_cdf_exact_right_tail:
  assumes "completed m" and "fill_cdf a m = Inr m'"
  shows "cdf_size m' = size_m m * nat (max_m m - min_m m) + 1
       \<and> length (cdf m') = cdf_size m'
       \<and> (\<forall>t<cdf_size m'. cdf m' ! t =
             (if \<bar>right_tail a m 0 - 1\<bar> > 1 / 10000
              then right_tail a m (int t) / right_tail a m 0
              else right_tail a m (int t)))
       \<and> (bkg a ! 0 + bkg a ! 1 + bkg a ! 2 + bkg a ! 3 = 1 \<longrightarrow>
            (\<forall>t<cdf_size m'. cdf m' ! t = right_tail a m (int t)))
       \<and> (\<forall>score. score2pval m' score = cdf m' ! nat (score - int (size_m m) * min_m m))"
proof -
  have d: "0 \<le> max_m m - min_m m" using completed_range(1,2)[OF assms(1)] by simp
  have m': "m' = m\<lparr>cdf_size := nat (int (size_m m) * (max_m m - min_m m) + 1),
                    cdf := cdf_array a m\<rparr>"
    using assms(2) by (simp add: fill_cdf_def Let_def split: if_splits)
  have "nat (int (size_m m) * (max_m m - min_m m) + 1) = size_m m * nat (max_m m - min_m m) + 1"
    using d by (simp add: nat_add_distrib nat_mult_distrib)
  then have sz: "cdf_size m' = size_m m * nat (max_m m - min_m m) + 1" using m' by simp
  have c: "cdf m' = cdf_array a m" using m' by simp
  have len: "length (cdf m') = cdf_size m'"
    unfolding c sz using assms(1) by (rule cdf_array_length)
  have nth: "\<forall>t<cdf_size m'. cdf m' ! t =
             (if \<bar>right_tail a m 0 - 1\<bar> > 1 / 10000
              then right_tail a m (int t) / right_tail a m 0
              else right_tail a m (int t))"
    unfolding c sz using cdf_array_nth[OF assms(1)] by blast
  have one: "bkg a ! 0 + bkg a ! 1 + bkg a ! 2 + bkg a ! 3 = 1 \<longrightarrow>
            (\<forall>t<cdf_size m'. cdf m' ! t = right_tail a m (int t))"
    using nth right_tail_0[OF assms(1), of a] by simp
  have pv: "\<forall>score. score2pval m' score = cdf m' ! nat (score - int (size_m m) * min_m m)"
    using m' by (simp add: score2pval_def mult.commute)
  show ?thesis using sz len nth one pv by blast
qed

theorem fill_cdf_exact_right_tail_witness:
  "completed example_motif
   \<and> fill_cdf default_args example_motif
       = Inr (example_motif\<lparr>cdf_size := 7, cdf := example_cdf\<rparr>)
   \<and> right_tail default_args example_motif 4 = 1 / 16"
proof -
  let ?m' = "example_motif\<lparr>cdf_size := 7, cdf := example_cdf\<rparr>"
  have b: "bkg default_args ! 0 + bkg default_args ! 1 + bkg default_args ! 2
             + bkg default_args ! 3 = 1"
    by (simp add: default_args_def)
  from fill_cdf_exact_right_tail[OF example_completed example_fill_cdf] b
  have "\<forall>t<cdf_size ?m'. cdf ?m' ! t = right_tail default_args example_motif (int t)"
    by blast
  then have "cdf ?m' ! 4 = right_tail default_args example_motif (int 4)"
    by simp
  then have "right_tail default_args example_motif 4 = 1 / 16"
    by (simp add: example_cdf_def)
  then show ?thesis using example_completed example_fill_cdf by simp
qed

section \<open>The enumeration of words is complete and free of repetition\<close>

lemma words_set: "set (words n) = {w. length w = n \<and> (\<forall>k\<in>set w. k < 4)}"
proof (induction n)
  case 0
  then show ?case by auto
next
  case (Suc n)
  show ?case
  proof (intro set_eqI iffI)
    fix w :: "nat list" assume "w \<in> set (words (Suc n))"
    then show "w \<in> {w. length w = Suc n \<and> (\<forall>k\<in>set w. k < 4)}"
      using words_length[of w "Suc n"] words_letters[of w "Suc n"] by blast
  next
    fix w :: "nat list" assume "w \<in> {w. length w = Suc n \<and> (\<forall>k\<in>set w. k < 4)}"
    then have len: "length w = Suc n" and le: "\<forall>k\<in>set w. k < 4" by simp_all
    then obtain v k where w: "w = v @ [k]" by (cases w rule: rev_cases) auto
    have "v \<in> set (words n)" using Suc.IH len le w by auto
    moreover have "k < 4" using le w by simp
    ultimately have "v \<in> set (words n) \<and> w \<in> (\<lambda>k. v @ [k]) ` {0..<4}" using w by simp
    then show "w \<in> set (words (Suc n))" by auto
  qed
qed

lemma words_distinct: "distinct (words n)"
proof (induction n)
  case 0
  then show ?case by simp
next
  case (Suc n)
  have inner: "\<And>w::nat list. distinct (map (\<lambda>k. w @ [k]) [0..<4])"
    by (simp add: distinct_map inj_on_def)
  have disj: "\<And>v w::nat list. v \<noteq> w \<Longrightarrow>
      set (map (\<lambda>k. v @ [k]) [0..<4]) \<inter> set (map (\<lambda>k. w @ [k]) [0..<4]) = {}"
    by auto
  have "inj (\<lambda>w::nat list. map (\<lambda>k. w @ [k]) [0..<4])"
    by (rule injI) (simp add: upt_4)
  then have "distinct (map (\<lambda>w. map (\<lambda>k. w @ [k]) [0..<4]) (words n))"
    using Suc by (simp add: distinct_map inj_on_def)
  then have "distinct (concat (map (\<lambda>w. map (\<lambda>k. w @ [k]) [0..<4]) (words n)))"
  proof (rule distinct_concat)
    fix ys assume "ys \<in> set (map (\<lambda>w. map (\<lambda>k. w @ [k]) [0..<4]) (words n))"
    then show "distinct ys" using inner by auto
  next
    fix ys zs
    assume "ys \<in> set (map (\<lambda>w. map (\<lambda>k. w @ [k]) [0..<4]) (words n))"
      and "zs \<in> set (map (\<lambda>w. map (\<lambda>k. w @ [k]) [0..<4]) (words n))" and "ys \<noteq> zs"
    then obtain v w where "ys = map (\<lambda>k. v @ [k]) [0..<4]" "zs = map (\<lambda>k. w @ [k]) [0..<4]"
      "v \<noteq> w" by auto
    then show "set ys \<inter> set zs = {}" using disj by simp
  qed
  then show ?case by simp
qed

section \<open>Claim C8: shape of the CDF\<close>

lemma fill_cdf_result:
  assumes "completed m" and "fill_cdf a m = Inr m'"
  shows "m' = m\<lparr>cdf_size := size_m m * nat (max_m m - min_m m) + 1, cdf := cdf_array a m\<rparr>"
proof -
  have d: "0 \<le> max_m m - min_m m" using completed_range(1,2)[OF assms(1)] by simp
  have "nat (int (size_m m) * (max_m m - min_m m) + 1) = size_m m * nat (max_m m - min_m m) + 1"
    using d by (simp add: nat_add_distrib nat_mult_distrib)
  then show ?thesis using assms(2) by (simp add: fill_cdf_def Let_def split: if_splits)
qed

lemma word_prob_nonneg:
  assumes "\<forall>k<4. 0 \<le> bkg a ! k" "w \<in> set (words n)"
  shows "0 \<le> word_prob a w"
  unfolding word_prob_def using assms words_letters[OF assms(2)]
  by (intro prod_list_nonneg) auto

lemma point_mass_nonneg:
  assumes "\<forall>k<4. 0 \<le> bkg a ! k"
  shows "0 \<le> point_mass a m n u"
  unfolding point_mass_def using word_prob_nonneg[OF assms]
  by (intro sum_list_nonneg) auto

text \<open>
  C8. For a completed motif on which \<open>fill_cdf\<close> succeeds, under a background of
  non-negative values with a positive sum: \<open>cdf[0]\<close> is within 0.0001 of 1, \<open>cdf\<close> does
  not increase with the index, and \<open>cdf[R - 1]\<close> is the last entry of the PDF as it
  stands before the suffix sums.
\<close>

theorem fill_cdf_shape:
  assumes "completed m" and "fill_cdf a m = Inr m'"
    and "\<forall>k<4. 0 \<le> bkg a ! k"
    and "0 < bkg a ! 0 + bkg a ! 1 + bkg a ! 2 + bkg a ! 3"
  shows "\<bar>cdf m' ! 0 - 1\<bar> \<le> 1 / 10000
       \<and> (\<forall>t. t + 1 < cdf_size m' \<longrightarrow> cdf m' ! (t + 1) \<le> cdf m' ! t)
       \<and> cdf m' ! (cdf_size m' - 1) = renormalize (pdf_array a m) ! (cdf_size m' - 1)"
proof -
  let ?L = "size_m m * nat (max_m m - min_m m) + 1"
  let ?r = "renormalize (pdf_array a m)"
  have c: "cdf m' = cdf_array a m" and sz: "cdf_size m' = ?L"
    using fill_cdf_result[OF assms(1,2)] by simp_all
  have rl: "length ?r = ?L" by (simp add: renormalize_length pdf_array_length[OF assms(1)])
  have tot: "0 < right_tail a m 0" unfolding right_tail_0[OF assms(1)] using assms(4) by simp
  have first: "\<bar>cdf m' ! 0 - 1\<bar> \<le> 1 / 10000"
    unfolding c using cdf_array_nth[OF assms(1), of 0 a] tot by (simp split: if_splits)
  have rn: "\<And>u. u < ?L \<Longrightarrow> 0 \<le> ?r ! u"
  proof -
    fix u assume u: "u < ?L"
    then have ul: "u < length (pdf_array a m)" by (simp add: pdf_array_length[OF assms(1)])
    have "?r ! u = (if \<bar>right_tail a m 0 - 1\<bar> > 1 / 10000
                    then point_mass a m (size_m m) u / right_tail a m 0
                    else point_mass a m (size_m m) u)"
      using renormalize_nth[OF ul] by (simp only: pdf_array_sum[OF assms(1)] pdf_array_nth[OF assms(1) ul])
    then show "0 \<le> ?r ! u" using point_mass_nonneg[OF assms(3), of m "size_m m" u] tot by simp
  qed
  have mono: "\<forall>t. t + 1 < cdf_size m' \<longrightarrow> cdf m' ! (t + 1) \<le> cdf m' ! t"
  proof (intro allI impI)
    fix t assume t: "t + 1 < cdf_size m'"
    then have t1: "t + 1 < length ?r" and t0: "t < length ?r" using sz rl by simp_all
    have "cdf m' ! t = (\<Sum>u = t..<length ?r. ?r ! u)"
      unfolding c cdf_array_def using t0 by (rule suffix_sums_nth)
    also have "{t..<length ?r} = insert t {t + 1..<length ?r}" using t0 by auto
    also have "(\<Sum>u\<in>insert t {t + 1..<length ?r}. ?r ! u) = ?r ! t + (\<Sum>u = t + 1..<length ?r. ?r ! u)"
      by simp
    also have "(\<Sum>u = t + 1..<length ?r. ?r ! u) = cdf m' ! (t + 1)"
      unfolding c cdf_array_def using t1 by (rule suffix_sums_nth[symmetric])
    finally show "cdf m' ! (t + 1) \<le> cdf m' ! t" using rn[of t] t0 rl by simp
  qed
  have last: "cdf m' ! (cdf_size m' - 1) = ?r ! (cdf_size m' - 1)"
  proof -
    have "cdf_size m' - 1 < length ?r" using sz rl by simp
    then have "cdf m' ! (cdf_size m' - 1) = (\<Sum>u = cdf_size m' - 1..<length ?r. ?r ! u)"
      unfolding c cdf_array_def by (rule suffix_sums_nth)
    moreover have "{cdf_size m' - 1..<length ?r} = {cdf_size m' - 1}" using sz rl by auto
    ultimately show ?thesis by simp
  qed
  show ?thesis using first mono last by blast
qed

theorem fill_cdf_shape_witness:
  "completed example_motif
   \<and> fill_cdf default_args example_motif
       = Inr (example_motif\<lparr>cdf_size := 7, cdf := example_cdf\<rparr>)
   \<and> 0 < bkg default_args ! 0 + bkg default_args ! 1 + bkg default_args ! 2 + bkg default_args ! 3
   \<and> \<bar>example_cdf ! 0 - 1\<bar> \<le> 1 / 10000
   \<and> example_cdf ! (3 + 1) \<le> example_cdf ! 3"
proof -
  let ?m' = "example_motif\<lparr>cdf_size := 7, cdf := example_cdf\<rparr>"
  have nn: "\<forall>k<4. 0 \<le> bkg default_args ! k"
    by (simp add: default_args_def all_less_4)
  have pos: "0 < bkg default_args ! 0 + bkg default_args ! 1 + bkg default_args ! 2
                 + bkg default_args ! 3"
    by (simp add: default_args_def)
  from fill_cdf_shape[OF example_completed example_fill_cdf nn pos]
  have f: "\<bar>cdf ?m' ! 0 - 1\<bar> \<le> 1 / 10000"
    and mono: "\<forall>t. t + 1 < cdf_size ?m' \<longrightarrow> cdf ?m' ! (t + 1) \<le> cdf ?m' ! t"
    by blast+
  have "(3::nat) + 1 < cdf_size ?m'" by simp
  with mono have "cdf ?m' ! (3 + 1) \<le> cdf ?m' ! 3" by blast
  with f have "\<bar>example_cdf ! 0 - 1\<bar> \<le> 1 / 10000" and "example_cdf ! (3 + 1) \<le> example_cdf ! 3"
    by simp_all
  then show ?thesis using example_completed example_fill_cdf pos by simp
qed

section \<open>The reverse-complement table\<close>

lemma fill_pwm_rc_pos_eq:
  "fill_pwm_rc_pos pos m =
     m\<lparr>pwm_rc := (pwm_rc m)
        [0 + (size_m m - 1 - pos) * 5 := pwm m ! (3 + pos * 5),
         1 + (size_m m - 1 - pos) * 5 := pwm m ! (2 + pos * 5),
         2 + (size_m m - 1 - pos) * 5 := pwm m ! (1 + pos * 5),
         3 + (size_m m - 1 - pos) * 5 := pwm m ! (0 + pos * 5)]\<rparr>"
  by (simp add: fill_pwm_rc_pos_def Let_def set_score_rc_def get_score_def char2index_letters)

lemma fill_pwm_rc_pos_nth:
  assumes "size_m m - 1 - pos < 50" "length (pwm_rc m) = 250" "k < 5"
  shows "pwm_rc (fill_pwm_rc_pos pos m) ! (k + j * 5) =
           (if k < 4 \<and> j = size_m m - 1 - pos then pwm m ! ((3 - k) + pos * 5)
            else pwm_rc m ! (k + j * 5))"
proof -
  let ?q = "size_m m - 1 - pos"
  have inr: "0 + ?q * 5 < 250" "1 + ?q * 5 < 250" "2 + ?q * 5 < 250" "3 + ?q * 5 < 250"
    using assms(1) by simp_all
  have eqs: "\<And>k'. k' < 5 \<Longrightarrow> (k' + ?q * 5 = k + j * 5) = (k' = k \<and> ?q = j)"
    using assms(3) by (simp add: cell_index_eq)
  have e: "(0 + ?q * 5 = k + j * 5) = (0 = k \<and> ?q = j)"
    "(1 + ?q * 5 = k + j * 5) = (1 = k \<and> ?q = j)"
    "(2 + ?q * 5 = k + j * 5) = (2 = k \<and> ?q = j)"
    "(3 + ?q * 5 = k + j * 5) = (3 = k \<and> ?q = j)"
    using eqs[of 0] eqs[of 1] eqs[of 2] eqs[of 3] by simp_all
  define i0 i1 i2 i3 where "i0 = 0 + ?q * 5" and "i1 = 1 + ?q * 5" and "i2 = 2 + ?q * 5"
    and "i3 = 3 + ?q * 5"
  define t where "t = k + j * 5"
  have upd: "(pwm_rc m)[i0 := v0, i1 := v1, i2 := v2, i3 := v3] ! t =
               (if i3 = t then v3 else if i2 = t then v2 else if i1 = t then v1
                else if i0 = t then v0 else pwm_rc m ! t)" for v0 v1 v2 v3 :: int
    using inr assms(2) unfolding i0_def i1_def i2_def i3_def
    by (simp add: nth_list_update_any)
  have sel: "pwm_rc (fill_pwm_rc_pos pos m) ! t =
               (if i3 = t then pwm m ! (0 + pos * 5) else if i2 = t then pwm m ! (1 + pos * 5)
                else if i1 = t then pwm m ! (2 + pos * 5)
                else if i0 = t then pwm m ! (3 + pos * 5) else pwm_rc m ! t)"
    unfolding fill_pwm_rc_pos_eq i0_def[symmetric] i1_def[symmetric] i2_def[symmetric]
      i3_def[symmetric]
    using upd by simp
  have ne: "?q \<noteq> j \<or> k = 4 \<Longrightarrow> i0 \<noteq> t \<and> i1 \<noteq> t \<and> i2 \<noteq> t \<and> i3 \<noteq> t"
    unfolding t_def i0_def i1_def i2_def i3_def e by auto
  show ?thesis
  proof (cases "k < 4 \<and> j = ?q")
    case False
    then have "?q \<noteq> j \<or> k = 4" using assms(3) by auto
    from ne[OF this] have "pwm_rc (fill_pwm_rc_pos pos m) ! t = pwm_rc m ! t"
      using sel by simp
    then show ?thesis using False unfolding t_def by (simp only: if_False)
  next
    case True
    then consider "k = 0" | "k = 1" | "k = 2" | "k = 3" by linarith
    then show ?thesis
    proof cases
      case 1
      then have "i0 = t" "i1 \<noteq> t" "i2 \<noteq> t" "i3 \<noteq> t"
        using True unfolding t_def i0_def i1_def i2_def i3_def by simp_all
      then show ?thesis using sel True 1 unfolding t_def by simp
    next
      case 2
      then have "i1 = t" "i2 \<noteq> t" "i3 \<noteq> t"
        using True unfolding t_def i0_def i1_def i2_def i3_def by simp_all
      then show ?thesis using sel True 2 unfolding t_def by simp
    next
      case 3
      then have "i2 = t" "i3 \<noteq> t"
        using True unfolding t_def i0_def i1_def i2_def i3_def by simp_all
      then show ?thesis using sel True 3 unfolding t_def by simp
    next
      case 4
      then have "i3 = t"
        using True unfolding t_def i0_def i1_def i2_def i3_def by simp_all
      then show ?thesis using sel True 4 unfolding t_def by simp
    qed
  qed
qed

lemma fill_pwm_rc_loop:
  assumes "size_m m \<le> 50" "length (pwm_rc m) = 250"
  shows "n \<le> size_m m \<Longrightarrow>
     (\<exists>r. fold fill_pwm_rc_pos [0..<n] m = m\<lparr>pwm_rc := r\<rparr> \<and> length r = 250 \<and>
        (\<forall>k<5. \<forall>j. r ! (k + j * 5) =
           (if k < 4 \<and> size_m m - n \<le> j \<and> j < size_m m
            then pwm m ! ((3 - k) + (size_m m - 1 - j) * 5)
            else pwm_rc m ! (k + j * 5))))"
proof (induction n)
  case 0
  have "m = m\<lparr>pwm_rc := pwm_rc m\<rparr>" by simp
  then show ?case using assms by (intro exI[of _ "pwm_rc m"]) simp
next
  case (Suc n)
  then obtain r where r: "fold fill_pwm_rc_pos [0..<n] m = m\<lparr>pwm_rc := r\<rparr>"
    and len: "length r = 250"
    and nth: "\<And>k j. k < 5 \<Longrightarrow> r ! (k + j * 5) =
           (if k < 4 \<and> size_m m - n \<le> j \<and> j < size_m m
            then pwm m ! ((3 - k) + (size_m m - 1 - j) * 5)
            else pwm_rc m ! (k + j * 5))"
    by auto
  let ?m = "m\<lparr>pwm_rc := r\<rparr>"
  let ?r' = "pwm_rc (fill_pwm_rc_pos n ?m)"
  have step: "fold fill_pwm_rc_pos [0..<Suc n] m = fill_pwm_rc_pos n ?m" using r by simp
  have q: "size_m ?m - 1 - n < 50" using assms(1) Suc.prems by simp
  have eq: "fill_pwm_rc_pos n ?m = m\<lparr>pwm_rc := ?r'\<rparr>"
    by (simp add: fill_pwm_rc_pos_eq)
  have len': "length ?r' = 250" using len by (simp add: fill_pwm_rc_pos_eq)
  have nth': "\<forall>k<5. \<forall>j. ?r' ! (k + j * 5) =
           (if k < 4 \<and> size_m m - Suc n \<le> j \<and> j < size_m m
            then pwm m ! ((3 - k) + (size_m m - 1 - j) * 5)
            else pwm_rc m ! (k + j * 5))"
  proof (intro allI impI)
    fix k j :: nat assume k: "k < 5"
    have "?r' ! (k + j * 5) =
            (if k < 4 \<and> j = size_m ?m - 1 - n then pwm ?m ! ((3 - k) + n * 5)
             else pwm_rc ?m ! (k + j * 5))"
      using q len k by (intro fill_pwm_rc_pos_nth) simp_all
    also have "\<dots> = (if k < 4 \<and> size_m m - Suc n \<le> j \<and> j < size_m m
            then pwm m ! ((3 - k) + (size_m m - 1 - j) * 5)
            else pwm_rc m ! (k + j * 5))"
    proof (cases "j = size_m m - 1 - n")
      case True
      then have "size_m m - 1 - j = n" using Suc.prems by simp
      then show ?thesis using True Suc.prems nth[OF k, of j] by auto
    next
      case False
      then have "(size_m m - Suc n \<le> j \<and> j < size_m m) = (size_m m - n \<le> j \<and> j < size_m m)"
        using Suc.prems by auto
      then show ?thesis using False nth[OF k, of j] by simp
    qed
    finally show "?r' ! (k + j * 5) =
           (if k < 4 \<and> size_m m - Suc n \<le> j \<and> j < size_m m
            then pwm m ! ((3 - k) + (size_m m - 1 - j) * 5)
            else pwm_rc m ! (k + j * 5))" .
  qed
  show ?case unfolding step using eq len' nth' by blast
qed

lemma fill_pwm_rc_result:
  assumes "size_m m \<le> 50" "length (pwm_rc m) = 250"
  obtains r where "fill_pwm_rc m = m\<lparr>pwm_rc := r\<rparr>" "length r = 250"
    "\<And>k j. k < 5 \<Longrightarrow> r ! (k + j * 5) =
           (if k < 4 \<and> j < size_m m
            then pwm m ! ((3 - k) + (size_m m - 1 - j) * 5)
            else pwm_rc m ! (k + j * 5))"
  using fill_pwm_rc_loop[OF assms, of "size_m m"] unfolding fill_pwm_rc_def by auto

lemma fill_pwm_rc_fields:
  "\<exists>r. fill_pwm_rc m = m\<lparr>pwm_rc := r\<rparr>"
proof -
  have "\<And>n. \<exists>r. fold fill_pwm_rc_pos [0..<n] m = m\<lparr>pwm_rc := r\<rparr>"
  proof -
    fix n show "\<exists>r. fold fill_pwm_rc_pos [0..<n] m = m\<lparr>pwm_rc := r\<rparr>"
    proof (induction n)
      case 0
      have "m = m\<lparr>pwm_rc := pwm_rc m\<rparr>" by simp
      then show ?case by (intro exI[of _ "pwm_rc m"]) simp
    next
      case (Suc n)
      then obtain r where "fold fill_pwm_rc_pos [0..<n] m = m\<lparr>pwm_rc := r\<rparr>" by auto
      then have "fold fill_pwm_rc_pos [0..<Suc n] m = fill_pwm_rc_pos n (m\<lparr>pwm_rc := r\<rparr>)"
        by simp
      also have "\<dots> = m\<lparr>pwm_rc := pwm_rc (fill_pwm_rc_pos n (m\<lparr>pwm_rc := r\<rparr>))\<rparr>"
        by (simp add: fill_pwm_rc_pos_eq)
      finally show ?case by blast
    qed
  qed
  then show ?thesis unfolding fill_pwm_rc_def by simp
qed

section \<open>Window scores\<close>

lemma score_subseq_sum:
  "score_subseq m seq off = (\<Sum>i<size_m m. pwm m ! (char2index (seq ! (i + off)) + i * 5))"
  by (simp add: score_subseq_def fold_add_sum get_score_def)

lemma score_subseq_rc_sum:
  "score_subseq_rc m seq off = (\<Sum>i<size_m m. pwm_rc m ! (char2index (seq ! (i + off)) + i * 5))"
  by (simp add: score_subseq_rc_def fold_add_sum get_score_rc_def)

lemma char2index_complement:
  "char2index (complement c) = (if char2index c < 4 then 3 - char2index c else 4)"
  by (simp add: char2index_cases complement_def)

lemma completed_complete_motif: "completed (complete_motif m)"
proof -
  obtain r where r: "complete_motif m
      = m\<lparr>min_m := get_pwm_min m, max_m := get_pwm_max (m\<lparr>min_m := get_pwm_min m\<rparr>), pwm_rc := r\<rparr>"
    using fill_pwm_rc_fields[of "m\<lparr>min_m := get_pwm_min m,
        max_m := get_pwm_max (m\<lparr>min_m := get_pwm_min m\<rparr>)\<rparr>"]
    by (auto simp: complete_motif_def Let_def)
  show ?thesis unfolding completed_def r
    by (simp add: get_pwm_min_def get_pwm_max_def get_score_i_def)
qed

section \<open>Claim C5: reverse-complement symmetry\<close>

text \<open>
  C5. For a motif of at most 50 positions whose two tables have the ambiguity score in
  the fifth cell of every position, \<open>fill_pwm_rc\<close> leaves the forward table as it is
  and makes, for every position \<open>i\<close> of the motif, the reverse-complement cells of
  position \<open>W - 1 - i\<close> for A, C, G, T equal to the forward cells of position \<open>i\<close> for
  T, G, C, A, with the ambiguity cell still the ambiguity score. Hence the
  reverse-strand score of a window at offset \<open>off\<close> of a sequence equals the
  forward-strand score on the reverse complement of the sequence at offset
  \<open>|seq| - W - off\<close>.
\<close>

theorem fill_pwm_rc_symmetry:
  assumes "amb_columns (pwm m)" and "amb_columns (pwm_rc m)" and "size_m m \<le> 50"
  shows "pwm (fill_pwm_rc m) = pwm m
       \<and> (\<forall>i<size_m m.
            get_score_rc (fill_pwm_rc m) CHR ''A'' (size_m m - 1 - i) = get_score m CHR ''T'' i
          \<and> get_score_rc (fill_pwm_rc m) CHR ''C'' (size_m m - 1 - i) = get_score m CHR ''G'' i
          \<and> get_score_rc (fill_pwm_rc m) CHR ''G'' (size_m m - 1 - i) = get_score m CHR ''C'' i
          \<and> get_score_rc (fill_pwm_rc m) CHR ''T'' (size_m m - 1 - i) = get_score m CHR ''A'' i
          \<and> pwm_rc (fill_pwm_rc m) ! (4 + (size_m m - 1 - i) * 5) = AMBIGUITY_SCORE)
       \<and> (\<forall>seq off. off + size_m m \<le> length seq \<longrightarrow>
            score_subseq_rc (fill_pwm_rc m) seq off
              = score_subseq (fill_pwm_rc m) (reverse_complement seq)
                  (length seq - size_m m - off))"
proof -
  let ?W = "size_m m"
  have lens: "length (pwm m) = 250" "length (pwm_rc m) = 250"
    using assms(1,2) by (simp_all add: amb_columns_def MAX_MOTIF_SIZE_def)
  obtain r where r: "fill_pwm_rc m = m\<lparr>pwm_rc := r\<rparr>" and "length r = 250"
    and nth: "\<And>k j. k < 5 \<Longrightarrow> r ! (k + j * 5) =
           (if k < 4 \<and> j < ?W then pwm m ! ((3 - k) + (?W - 1 - j) * 5)
            else pwm_rc m ! (k + j * 5))"
    using fill_pwm_rc_result[OF assms(3) lens(2)] by blast
  have amb: "\<And>i. i < 50 \<Longrightarrow> pwm m ! (4 + i * 5) = AMBIGUITY_SCORE"
    "\<And>i. i < 50 \<Longrightarrow> pwm_rc m ! (4 + i * 5) = AMBIGUITY_SCORE"
    using assms(1,2) by (simp_all add: amb_columns_def)
  have p: "pwm (fill_pwm_rc m) = pwm m" using r by simp
  have cells: "\<forall>i<?W.
            get_score_rc (fill_pwm_rc m) CHR ''A'' (?W - 1 - i) = get_score m CHR ''T'' i
          \<and> get_score_rc (fill_pwm_rc m) CHR ''C'' (?W - 1 - i) = get_score m CHR ''G'' i
          \<and> get_score_rc (fill_pwm_rc m) CHR ''G'' (?W - 1 - i) = get_score m CHR ''C'' i
          \<and> get_score_rc (fill_pwm_rc m) CHR ''T'' (?W - 1 - i) = get_score m CHR ''A'' i
          \<and> pwm_rc (fill_pwm_rc m) ! (4 + (?W - 1 - i) * 5) = AMBIGUITY_SCORE"
  proof (intro allI impI)
    fix i assume i: "i < ?W"
    then have j: "?W - 1 - i < ?W" "?W - 1 - (?W - 1 - i) = i" "?W - 1 - i < 50"
      using assms(3) by simp_all
    show "get_score_rc (fill_pwm_rc m) CHR ''A'' (?W - 1 - i) = get_score m CHR ''T'' i
          \<and> get_score_rc (fill_pwm_rc m) CHR ''C'' (?W - 1 - i) = get_score m CHR ''G'' i
          \<and> get_score_rc (fill_pwm_rc m) CHR ''G'' (?W - 1 - i) = get_score m CHR ''C'' i
          \<and> get_score_rc (fill_pwm_rc m) CHR ''T'' (?W - 1 - i) = get_score m CHR ''A'' i
          \<and> pwm_rc (fill_pwm_rc m) ! (4 + (?W - 1 - i) * 5) = AMBIGUITY_SCORE"
      unfolding r get_score_rc_def get_score_def char2index_letters
      using nth[of 0 "?W - 1 - i"] nth[of 1 "?W - 1 - i"] nth[of 2 "?W - 1 - i"]
        nth[of 3 "?W - 1 - i"] nth[of 4 "?W - 1 - i"] j amb(2)[of "?W - 1 - i"]
      by simp
  qed
  have sym: "\<forall>seq off. off + ?W \<le> length seq \<longrightarrow>
            score_subseq_rc (fill_pwm_rc m) seq off
              = score_subseq (fill_pwm_rc m) (reverse_complement seq) (length seq - ?W - off)"
  proof (intro allI impI)
    fix seq :: string and off :: nat
    assume fit: "off + ?W \<le> length seq"
    let ?off' = "length seq - ?W - off"
    have rcn: "\<And>i. i < ?W \<Longrightarrow>
        reverse_complement seq ! (i + ?off') = complement (seq ! ((?W - Suc i) + off))"
    proof -
      fix i assume i: "i < ?W"
      then have lt: "i + ?off' < length (map complement seq)" using fit by simp
      have "length seq - Suc (i + ?off') = (?W - Suc i) + off" using fit i by simp
      then show "reverse_complement seq ! (i + ?off') = complement (seq ! ((?W - Suc i) + off))"
        unfolding reverse_complement_def using rev_nth[OF lt] lt by simp
    qed
    have cell: "\<And>i. i < ?W \<Longrightarrow>
        r ! (char2index (seq ! (i + off)) + i * 5)
          = pwm m ! (char2index (complement (seq ! (i + off))) + (?W - Suc i) * 5)"
    proof -
      fix i assume i: "i < ?W"
      let ?k = "char2index (seq ! (i + off))"
      have k5: "?k < 5" using char2index_le4[of "seq ! (i + off)"] by simp
      have i50: "i < 50" "?W - Suc i < 50" using i assms(3) by simp_all
      show "r ! (?k + i * 5) = pwm m ! (char2index (complement (seq ! (i + off))) + (?W - Suc i) * 5)"
      proof (cases "?k < 4")
        case True
        then show ?thesis using nth[OF k5, of i] i by (simp add: char2index_complement)
      next
        case False
        then have k4: "?k = 4" using k5 by simp
        then show ?thesis
          using nth[OF k5, of i] amb(1)[OF i50(2)] amb(2)[OF i50(1)]
          by (simp add: char2index_complement)
      qed
    qed
    have "score_subseq (fill_pwm_rc m) (reverse_complement seq) ?off'
            = (\<Sum>i<?W. pwm m ! (char2index (complement (seq ! ((?W - Suc i) + off))) + i * 5))"
      unfolding score_subseq_sum p r using rcn by simp
    also have "\<dots> = (\<Sum>i<?W. pwm m ! (char2index (complement (seq ! (i + off))) + (?W - Suc i) * 5))"
      using sum.nat_diff_reindex[of "\<lambda>i. pwm m ! (char2index (complement (seq ! (i + off))) + (?W - Suc i) * 5)" ?W]
      by simp
    also have "\<dots> = (\<Sum>i<?W. r ! (char2index (seq ! (i + off)) + i * 5))"
      using cell by simp
    finally show "score_subseq_rc (fill_pwm_rc m) seq off
              = score_subseq (fill_pwm_rc m) (reverse_complement seq) ?off'"
      unfolding score_subseq_rc_sum r by simp
  qed
  show ?thesis using p cells sym by blast
qed


lemma loaded_set_score_letters:
  assumes "loaded m"
  shows "loaded (set_score m CHR ''A'' pos v)" "loaded (set_score m CHR ''C'' pos v)"
    "loaded (set_score m CHR ''G'' pos v)" "loaded (set_score m CHR ''T'' pos v)"
  using assms by (simp_all add: loaded_set_score)

lemma loaded_size: "loaded m \<Longrightarrow> n \<le> 50 \<Longrightarrow> loaded (m\<lparr>size_m := n\<rparr>)"
  by (simp add: loaded_def)

lemma example_loaded_loaded: "loaded example_loaded"
  unfolding example_loaded_def Let_def
  by (intro loaded_size loaded_set_score_letters loaded_init) simp

lemma example_loaded_fields:
  "amb_columns (pwm example_loaded)" "amb_columns (pwm_rc example_loaded)"
  "size_m example_loaded = 2"
  using example_loaded_loaded by (simp_all add: loaded_def example_loaded_def Let_def)

theorem fill_pwm_rc_symmetry_witness:
  "amb_columns (pwm example_loaded) \<and> amb_columns (pwm_rc example_loaded)
   \<and> size_m example_loaded \<le> 50
   \<and> get_score_rc (fill_pwm_rc example_loaded) CHR ''G'' (size_m example_loaded - 1 - 1)
        = get_score example_loaded CHR ''C'' 1
   \<and> get_score example_loaded CHR ''C'' 1 = 2
   \<and> score_subseq_rc (fill_pwm_rc example_loaded) ''TTGTA'' 2
        = score_subseq (fill_pwm_rc example_loaded) (reverse_complement ''TTGTA'')
            (length ''TTGTA'' - size_m example_loaded - 2)
   \<and> reverse_complement ''TTGTA'' = ''TACAA''"
proof -
  have sz: "size_m example_loaded \<le> 50" by (simp add: example_loaded_fields)
  note th = fill_pwm_rc_symmetry[OF example_loaded_fields(1,2) sz]
  have "1 < size_m example_loaded" by (simp add: example_loaded_fields)
  with th have c: "get_score_rc (fill_pwm_rc example_loaded) CHR ''G'' (size_m example_loaded - 1 - 1)
        = get_score example_loaded CHR ''C'' 1"
    by blast
  have "2 + size_m example_loaded \<le> length ''TTGTA''" by (simp add: example_loaded_fields)
  with th have s: "score_subseq_rc (fill_pwm_rc example_loaded) ''TTGTA'' 2
        = score_subseq (fill_pwm_rc example_loaded) (reverse_complement ''TTGTA'')
            (length ''TTGTA'' - size_m example_loaded - 2)"
    by blast
  have v: "get_score example_loaded CHR ''C'' 1 = 2" by code_simp
  have rc: "reverse_complement ''TTGTA'' = ''TACAA''"
    by (simp add: reverse_complement_def complement_def)
  show ?thesis using example_loaded_fields(1,2) sz c s v rc by simp
qed

section \<open>The threshold\<close>

lemma threshold_index_props:
  "threshold_index c n p \<le> n"
  "i < threshold_index c n p \<Longrightarrow> \<not> c ! i < p"
  "threshold_index c n p < n \<Longrightarrow> c ! threshold_index c n p < p"
proof -
  show "threshold_index c n p \<le> n"
    by (auto simp: threshold_index_def find_Some_iff split: option.splits)
  show "i < threshold_index c n p \<Longrightarrow> \<not> c ! i < p"
  proof (cases "find (\<lambda>i. c ! i < p) [0..<n]")
    case None
    assume "i < threshold_index c n p"
    then show ?thesis using None by (auto simp: threshold_index_def find_None_iff)
  next
    case (Some k)
    assume "i < threshold_index c n p"
    then have "i < k" using Some by (simp add: threshold_index_def)
    moreover from Some obtain q where "q < n" "k = [0..<n] ! q" "\<forall>j<q. \<not> c ! ([0..<n] ! j) < p"
      by (auto simp: find_Some_iff)
    ultimately show ?thesis by auto
  qed
  show "threshold_index c n p < n \<Longrightarrow> c ! threshold_index c n p < p"
  proof (cases "find (\<lambda>i. c ! i < p) [0..<n]")
    case None
    assume "threshold_index c n p < n"
    then show ?thesis using None by (simp add: threshold_index_def)
  next
    case (Some k)
    then have "c ! k < p" by (auto simp: find_Some_iff)
    then show ?thesis using Some by (simp add: threshold_index_def)
  qed
qed

lemma upt_1_4: "[1..<4] = [1, 2, 3]"
  by (simp add: upt_rec)

lemma add_position_extremes_eq:
  "add_position_extremes i m =
     m\<lparr>max_score := max_score m + position_max m i, min_score := min_score m + position_min m i\<rparr>"
proof -
  have mx: "\<And>a b c d :: int.
      (let m1 = (if b > a then b else a); m2 = (if c > m1 then c else m1)
       in if d > m2 then d else m2) = max (max a b) (max c d)"
    by (simp add: Let_def max_def)
  have mn: "\<And>a b c d :: int.
      (let m1 = (if b < a then b else a); m2 = (if c < m1 then c else m1)
       in if d < m2 then d else m2) = min (min a b) (min c d)"
    by (simp add: Let_def min_def)
  show ?thesis
    unfolding add_position_extremes_def upt_1_4 position_max_def position_min_def
      mx[symmetric] mn[symmetric]
    by (simp add: Let_def)
qed

lemma position_extremes_fields [simp]:
  "position_max (m\<lparr>max_score := x\<rparr>) i = position_max m i"
  "position_max (m\<lparr>min_score := x\<rparr>) i = position_max m i"
  "position_max (m\<lparr>threshold := t\<rparr>) i = position_max m i"
  "position_min (m\<lparr>max_score := x\<rparr>) i = position_min m i"
  "position_min (m\<lparr>min_score := x\<rparr>) i = position_min m i"
  "position_min (m\<lparr>threshold := t\<rparr>) i = position_min m i"
  by (simp_all add: position_max_def position_min_def get_score_i_def)

lemma fold_add_position_extremes:
  "fold add_position_extremes [0..<n] m =
     m\<lparr>max_score := max_score m + (\<Sum>i<n. position_max m i),
       min_score := min_score m + (\<Sum>i<n. position_min m i)\<rparr>"
proof (induction n)
  case 0
  then show ?case by simp
next
  case (Suc n)
  show ?case
    unfolding fold_upt_Suc Suc
    by (simp add: add_position_extremes_eq add.assoc)
qed

lemma set_threshold_eq:
  "set_threshold a m =
     m\<lparr>threshold :=
         (if ratio_exceeds (score2pval m (max_score m + motif_max_score m)) (pvalue a)
          then INT_MAX
          else int (threshold_index (cdf m) (cdf_size m) (pvalue a))
                 - (threshold m - min_m m) * int (size_m m)),
       max_score := max_score m + motif_max_score m,
       min_score := min_score m + motif_min_score m\<rparr>"
  by (simp add: set_threshold_def Let_def fold_add_position_extremes motif_max_score_def
      motif_min_score_def score2pval_def)

section \<open>The scanning loops\<close>

lemma scan_window_eq:
  "scan_window scorer strand m nm seq i out =
     out\<lparr>windows_scored := windows_scored out + 1,
         hits := hits out @ (if threshold m \<le> scorer m seq i
                             then [hit_at scorer strand m nm seq i] else [])\<rparr>"
  by (simp add: scan_window_def Let_def hit_at_def score2pval_def)

lemma scan_fold:
  "fold (scan_window scorer strand m nm seq) xs out =
     out\<lparr>windows_scored := windows_scored out + length xs,
         hits := hits out @ map (hit_at scorer strand m nm seq)
                               (filter (\<lambda>i. threshold m \<le> scorer m seq i) xs)\<rparr>"
proof (induction xs arbitrary: out)
  case Nil
  then show ?case by simp
next
  case (Cons x xs)
  let ?F = "scan_window scorer strand m nm seq"
  let ?o = "?F x out"
  have "fold ?F (x # xs) out = fold ?F xs ?o" by simp
  also have "\<dots> = ?o\<lparr>windows_scored := windows_scored ?o + length xs,
         hits := hits ?o @ map (hit_at scorer strand m nm seq)
                               (filter (\<lambda>i. threshold m \<le> scorer m seq i) xs)\<rparr>"
    by (rule Cons)
  also have "\<dots> = out\<lparr>windows_scored := windows_scored out + length (x # xs),
         hits := hits out @ map (hit_at scorer strand m nm seq)
                               (filter (\<lambda>i. threshold m \<le> scorer m seq i) (x # xs))\<rparr>"
    by (simp add: scan_window_eq)
  finally show ?case .
qed

lemma scan_strand_eq:
  "scan_strand scorer strand m nm seq out =
     out\<lparr>windows_scored := windows_scored out + (length seq - size_m m + 1),
         hits := hits out @ map (hit_at scorer strand m nm seq)
                   (filter (\<lambda>i. threshold m \<le> scorer m seq i) [0..<length seq - size_m m + 1])\<rparr>"
  unfolding scan_strand_def scan_fold by simp

section \<open>Claim C3: the threshold and the unreachable sentinel\<close>

text \<open>
  C3. On a motif whose \<open>threshold\<close> and \<open>max_score\<close> fields are 0, as \<open>init_motif\<close>
  leaves them, \<open>set_threshold\<close> finds \<open>t*\<close>, the smallest index of the CDF with
  \<open>cdf[t*] < pvalue\<close> (the CDF length when there is none), sets \<open>max_score\<close> to the sum
  of the position maxima, and sets the threshold to \<open>t* + W * min\<close>, unless
  \<open>score2pval(max_score) / pvalue > 1.0001\<close>, in which case the threshold is
  \<open>INT_MAX\<close>. With the threshold at \<open>INT_MAX\<close>, \<open>score_seq\<close> returns its output
  unchanged for every sequence: no line is written and no window scored.
\<close>

theorem set_threshold_value:
  assumes "threshold m = 0" and "max_score m = 0"
  shows "(let t_star = threshold_index (cdf m) (cdf_size m) (pvalue a);
              m' = set_threshold a m;
              min_pvalue = score2pval m (motif_max_score m)
          in t_star \<le> cdf_size m
           \<and> (\<forall>i<t_star. \<not> cdf m ! i < pvalue a)
           \<and> (t_star < cdf_size m \<longrightarrow> cdf m ! t_star < pvalue a)
           \<and> max_score m' = motif_max_score m
           \<and> threshold m' = (if ratio_exceeds min_pvalue (pvalue a) then INT_MAX
                              else int t_star + int (size_m m) * min_m m)
           \<and> (pvalue a \<noteq> 0 \<longrightarrow>
                ratio_exceeds min_pvalue (pvalue a) = (min_pvalue / pvalue a > 10001 / 10000))
           \<and> (threshold m' = INT_MAX \<longrightarrow>
                (\<forall>nm seq out. score_seq a m' nm seq out = out)))"
proof -
  let ?t = "threshold_index (cdf m) (cdf_size m) (pvalue a)"
  let ?m' = "set_threshold a m"
  let ?p = "score2pval m (motif_max_score m)"
  have idx: "?t \<le> cdf_size m" "\<forall>i<?t. \<not> cdf m ! i < pvalue a"
    "?t < cdf_size m \<longrightarrow> cdf m ! ?t < pvalue a"
    using threshold_index_props[where c="cdf m" and n="cdf_size m" and p="pvalue a"] by blast+
  have ms: "max_score ?m' = motif_max_score m"
    using assms(2) by (simp add: set_threshold_eq)
  have th: "threshold ?m' = (if ratio_exceeds ?p (pvalue a) then INT_MAX
                              else int ?t + int (size_m m) * min_m m)"
    using assms by (simp add: set_threshold_eq algebra_simps)
  have re: "pvalue a \<noteq> 0 \<longrightarrow> ratio_exceeds ?p (pvalue a) = (?p / pvalue a > 10001 / 10000)"
    by (simp add: ratio_exceeds_def)
  have skip: "threshold ?m' = INT_MAX \<longrightarrow> (\<forall>nm seq out. score_seq a ?m' nm seq out = out)"
    by (simp add: score_seq_def)
  show ?thesis unfolding Let_def using idx ms th re skip by blast
qed

lemma example_threshold_fields:
  "threshold example_motif = 0" "max_score example_motif = 0" "size_m example_motif = 2"
  "min_m example_motif = - 1"
  by code_simp+

theorem set_threshold_value_witness:
  "threshold (example_motif\<lparr>cdf_size := 7, cdf := example_cdf\<rparr>) = 0
   \<and> max_score (example_motif\<lparr>cdf_size := 7, cdf := example_cdf\<rparr>) = 0
   \<and> threshold_index example_cdf 7 (1 / 10) = 4
   \<and> threshold (set_threshold (default_args\<lparr>pvalue := 1 / 10\<rparr>)
        (example_motif\<lparr>cdf_size := 7, cdf := example_cdf\<rparr>)) = 2
   \<and> threshold (set_threshold default_args
        (example_motif\<lparr>cdf_size := 7, cdf := example_cdf\<rparr>)) = INT_MAX
   \<and> score_seq default_args
        (set_threshold default_args (example_motif\<lparr>cdf_size := 7, cdf := example_cdf\<rparr>))
        ''s'' ''TTACGT'' \<lparr>hits = [], windows_scored = 0\<rparr> = \<lparr>hits = [], windows_scored = 0\<rparr>"
proof -
  let ?m = "example_motif\<lparr>cdf_size := 7, cdf := example_cdf\<rparr>"
  let ?a = "default_args\<lparr>pvalue := 1 / 10\<rparr>"
  have h: "threshold ?m = 0" "max_score ?m = 0" by (simp_all add: example_threshold_fields)
  have ti: "threshold_index example_cdf 7 (1 / 10) = 4" by code_simp
  have ti0: "threshold_index example_cdf 7 (1 / 100000) = 7" by code_simp
  have mm: "motif_max_score ?m = 4" by code_simp
  have pv: "score2pval ?m 4 = 1 / 16" by code_simp
  note t1 = set_threshold_value[OF h, of ?a, unfolded Let_def]
  note t2 = set_threshold_value[OF h, of default_args, unfolded Let_def]
  have r1: "\<not> ratio_exceeds (1 / 16) (1 / 10)" by (simp add: ratio_exceeds_def)
  have r2: "ratio_exceeds (1 / 16) (1 / 100000)" by (simp add: ratio_exceeds_def)
  have a: "threshold (set_threshold ?a ?m) = 2"
    using t1 r1 by (simp add: mm pv ti example_threshold_fields)
  have b: "threshold (set_threshold default_args ?m) = INT_MAX"
    using t2 r2 by (simp add: mm pv default_args_def)
  from t2 b have "\<forall>nm seq out. score_seq default_args (set_threshold default_args ?m) nm seq out = out"
    by blast
  then have c: "score_seq default_args (set_threshold default_args ?m)
        ''s'' ''TTACGT'' \<lparr>hits = [], windows_scored = 0\<rparr> = \<lparr>hits = [], windows_scored = 0\<rparr>"
    by blast
  show ?thesis using h ti a b c by simp
qed

section \<open>Claim C10: one CDF and one threshold for both strands\<close>

lemma cdf_position_pwm_rc: "cdf_position a (m\<lparr>pwm_rc := r\<rparr>) = cdf_position a m"
  by (intro ext) (simp add: cdf_position_def get_score_i_def)

lemma cdf_array_pwm_rc: "cdf_array a (m\<lparr>pwm_rc := r\<rparr>) = cdf_array a m"
  by (simp add: cdf_array_def pdf_array_def cdf_position_pwm_rc)

lemma set_threshold_pwm_rc:
  "set_threshold a (m\<lparr>pwm_rc := r\<rparr>) = (set_threshold a m)\<lparr>pwm_rc := r\<rparr>"
  by (simp add: set_threshold_eq score2pval_def motif_max_score_def motif_min_score_def
      position_max_def position_min_def get_score_i_def)

lemma score_seq_hits:
  "hits (score_seq a m nm seq out)
     = hits out @
       (if length seq < size_m m \<or> threshold m = INT_MAX then []
        else map (hit_at score_subseq CHR ''+'' m nm seq)
               (filter (\<lambda>i. threshold m \<le> score_subseq m seq i)
                  [0..<length seq - size_m m + 1])
             @ (if scan_rc a
                then map (hit_at score_subseq_rc CHR ''-'' m nm seq)
                       (filter (\<lambda>i. threshold m \<le> score_subseq_rc m seq i)
                          [0..<length seq - size_m m + 1])
                else []))"
  by (simp add: score_seq_def scan_strand_eq Let_def)

lemma prepare_motif_pwm_rc:
  "prepare_motif a hc (m\<lparr>pwm_rc := r\<rparr>)
     = map_sum id (\<lambda>m'. m'\<lparr>pwm_rc := r\<rparr>) (prepare_motif a hc m)"
proof -
  have f: "fill_cdf a (m\<lparr>pwm_rc := r\<rparr>) = map_sum id (\<lambda>m'. m'\<lparr>pwm_rc := r\<rparr>) (fill_cdf a m)"
    by (simp add: fill_cdf_def Let_def cdf_array_pwm_rc)
  show ?thesis
  proof (cases "fill_cdf a m")
    case (Inl e)
    then show ?thesis using f by (simp add: prepare_motif_def)
  next
    case (Inr m1)
    then have "fill_cdf a (m\<lparr>pwm_rc := r\<rparr>) = Inr (m1\<lparr>pwm_rc := r\<rparr>)" using f by simp
    then show ?thesis using Inr by (simp add: prepare_motif_def Let_def set_threshold_pwm_rc)
  qed
qed

text \<open>
  C10. The lines that \<open>score_seq\<close> writes for a motif \<open>m\<close> and a sequence are those of the
  forward loop followed, unless \<open>-f\<close> is given, by those of the reverse loop. Both loops
  work on the same motif: the lines of the reverse loop are those of the windows whose
  reverse-complement score reaches the one threshold of \<open>m\<close>, and their p-value is the one
  CDF of \<open>m\<close> read at that score minus \<open>W * min\<close>, which is \<open>score2pval\<close>, as on the
  forward strand. The CDF computed by \<open>fill_cdf\<close>, the result of \<open>set_threshold\<close> and with
  them the motif that \<open>main\<close> prepares for \<open>score_seq\<close> do not depend on the
  reverse-complement table: with any other table in its place they are the same.
\<close>

theorem reverse_strand_uses_forward_cdf:
  "hits (score_seq a m nm seq out)
     = hits out @
       (if length seq < size_m m \<or> threshold m = INT_MAX then []
        else map (hit_at score_subseq CHR ''+'' m nm seq)
               (filter (\<lambda>i. threshold m \<le> score_subseq m seq i)
                  [0..<length seq - size_m m + 1])
             @ (if scan_rc a
                then map (hit_at score_subseq_rc CHR ''-'' m nm seq)
                       (filter (\<lambda>i. threshold m \<le> score_subseq_rc m seq i)
                          [0..<length seq - size_m m + 1])
                else []))
   \<and> hits (scan_strand score_subseq_rc CHR ''-'' m nm seq out)
     = hits out @ map (hit_at score_subseq_rc CHR ''-'' m nm seq)
         (filter (\<lambda>i. threshold m \<le> score_subseq_rc m seq i) [0..<length seq - size_m m + 1])
   \<and> h_pvalue (hit_at score_subseq_rc CHR ''-'' m nm seq i)
       = cdf m ! nat (score_subseq_rc m seq i - min_m m * int (size_m m))
   \<and> h_pvalue (hit_at score_subseq_rc CHR ''-'' m nm seq i)
       = score2pval m (score_subseq_rc m seq i)
   \<and> h_pvalue (hit_at score_subseq CHR ''+'' m nm seq i)
       = score2pval m (score_subseq m seq i)
   \<and> hits (scan_strand score_subseq CHR ''+'' m nm seq out)
     = hits out @ map (hit_at score_subseq CHR ''+'' m nm seq)
         (filter (\<lambda>i. threshold m \<le> score_subseq m seq i) [0..<length seq - size_m m + 1])
   \<and> cdf_array a (m\<lparr>pwm_rc := r\<rparr>) = cdf_array a m
   \<and> fill_cdf a (m\<lparr>pwm_rc := r\<rparr>) = map_sum id (\<lambda>m'. m'\<lparr>pwm_rc := r\<rparr>) (fill_cdf a m)
   \<and> set_threshold a (m\<lparr>pwm_rc := r\<rparr>) = (set_threshold a m)\<lparr>pwm_rc := r\<rparr>
   \<and> prepare_motif a hc (m\<lparr>pwm_rc := r\<rparr>)
       = map_sum id (\<lambda>m'. m'\<lparr>pwm_rc := r\<rparr>) (prepare_motif a hc m)"
proof -
  have s: "fill_cdf a (m\<lparr>pwm_rc := r\<rparr>) = map_sum id (\<lambda>m'. m'\<lparr>pwm_rc := r\<rparr>) (fill_cdf a m)"
    by (simp add: fill_cdf_def Let_def cdf_array_pwm_rc)
  show ?thesis
    unfolding score_seq_hits prepare_motif_pwm_rc s
    by (simp add: scan_strand_eq hit_at_def score2pval_def cdf_array_pwm_rc
        set_threshold_pwm_rc)
qed

section \<open>Claim C4: windows with an ambiguous byte\<close>

lemma char2index_ambiguous: "(char2index c = 4) = (c \<notin> set ''ACGTUacgtu'')"
  by (auto simp: char2index_cases)

lemma complete_motif_result:
  assumes "size_m m \<le> 50" "length (pwm_rc m) = 250"
  obtains r where
    "complete_motif m = m\<lparr>min_m := get_pwm_min m, max_m := get_pwm_max m, pwm_rc := r\<rparr>"
    "length r = 250"
    "\<And>k j. k < 5 \<Longrightarrow> r ! (k + j * 5) =
           (if k < 4 \<and> j < size_m m
            then pwm m ! ((3 - k) + (size_m m - 1 - j) * 5)
            else pwm_rc m ! (k + j * 5))"
proof -
  let ?m = "m\<lparr>min_m := get_pwm_min m, max_m := get_pwm_max m\<rparr>"
  have mx: "get_pwm_max (m\<lparr>min_m := get_pwm_min m\<rparr>) = get_pwm_max m"
    by (simp add: get_pwm_max_def get_score_i_def)
  have c: "complete_motif m = fill_pwm_rc ?m"
    by (simp add: complete_motif_def Let_def mx)
  have "size_m ?m \<le> 50" "length (pwm_rc ?m) = 250" using assms by simp_all
  from fill_pwm_rc_result[OF this] obtain r where
    "fill_pwm_rc ?m = ?m\<lparr>pwm_rc := r\<rparr>" "length r = 250"
    "\<And>k j. k < 5 \<Longrightarrow> r ! (k + j * 5) =
           (if k < 4 \<and> j < size_m ?m
            then pwm ?m ! ((3 - k) + (size_m ?m - 1 - j) * 5)
            else pwm_rc ?m ! (k + j * 5))"
    by blast
  then show ?thesis using c that[of r] by simp
qed

lemma motif_max_score_ge:
  assumes "completed m"
  shows "int (size_m m) * min_m m \<le> motif_max_score m"
proof -
  have "\<And>i. i \<in> {..<size_m m} \<Longrightarrow> min_m m \<le> position_max m i"
  proof -
    fix i assume "i \<in> {..<size_m m}"
    then have "min_m m \<le> get_score_i m 0 i" using completed_range(3)[OF assms, of i 0] by simp
    then show "min_m m \<le> position_max m i" by (simp add: position_max_def)
  qed
  from sum_bounded_below[of "{..<size_m m}" "min_m m" "position_max m", OF this]
  show ?thesis by (simp add: motif_max_score_def)
qed

lemma prepare_motif_result:
  assumes "completed mc" and "threshold mc = 0" and "max_score mc = 0"
    and "prepare_motif a hc mc = Inr m"
  shows "pwm m = pwm mc" "pwm_rc m = pwm_rc mc" "size_m m = size_m mc"
    "min_m m = min_m mc" "max_m m = max_m mc"
    "int (size_m mc) * (max_m mc - min_m mc) + 1 \<le> MAX_CDF_SIZE"
    "int (size_m mc) * min_m mc \<le> threshold m"
proof -
  from assms(4) obtain m1 where f: "fill_cdf a mc = Inr m1"
    and m: "m = (let m2 = set_threshold a m1
                 in if hc then m2\<lparr>threshold := max_score m2\<rparr> else m2)"
    by (auto simp: prepare_motif_def Let_def split: sum.splits)
  have m1: "m1 = mc\<lparr>cdf_size := size_m mc * nat (max_m mc - min_m mc) + 1, cdf := cdf_array a mc\<rparr>"
    using fill_cdf_result[OF assms(1) f] .
  show "int (size_m mc) * (max_m mc - min_m mc) + 1 \<le> MAX_CDF_SIZE"
    using f by (simp add: fill_cdf_def Let_def split: if_splits)
  show "pwm m = pwm mc" "pwm_rc m = pwm_rc mc" "size_m m = size_m mc"
    "min_m m = min_m mc" "max_m m = max_m mc"
    unfolding m Let_def set_threshold_eq m1 by simp_all
  have mn: "int (size_m mc) * min_m mc \<le> 0"
    using completed_range(1)[OF assms(1)] by (simp add: mult_nonneg_nonpos)
  have ms: "motif_max_score m1 = motif_max_score mc"
    unfolding m1 by (simp add: motif_max_score_def position_max_def get_score_i_def)
  have t2: "int (size_m mc) * min_m mc \<le> threshold (set_threshold a m1)"
    unfolding set_threshold_eq using mn assms(2)
    by (simp add: m1 INT_MAX_def algebra_simps)
  have s2: "int (size_m mc) * min_m mc \<le> max_score (set_threshold a m1)"
    unfolding set_threshold_eq using motif_max_score_ge[OF assms(1)] assms(3) ms
    by (simp add: m1)
  show "int (size_m mc) * min_m mc \<le> threshold m"
    unfolding m Let_def using t2 s2 by simp
qed

lemma sum_with_ambiguity:
  fixes f :: "nat \<Rightarrow> int"
  assumes "\<And>i. i < W \<Longrightarrow> f i \<le> mx" and "j < W" and "f j = AMBIGUITY_SCORE"
  shows "(\<Sum>i<W. f i) \<le> (int W - 1) * mx + AMBIGUITY_SCORE"
proof -
  have "(\<Sum>i<W. f i) = f j + (\<Sum>i\<in>{..<W} - {j}. f i)"
    using assms(2) by (simp add: sum.remove)
  also have "(\<Sum>i\<in>{..<W} - {j}. f i) \<le> of_nat (card ({..<W} - {j})) * mx"
    by (rule sum_bounded_above) (use assms(1) in auto)
  also have "card ({..<W} - {j}) = W - 1" using assms(2) by simp
  also have "int (W - 1) = int W - 1" using assms(2) by simp
  finally show ?thesis using assms(3) by simp
qed

lemma ambiguity_gap:
  fixes W :: nat and mx mn :: int
  assumes "int W * (mx - mn) + 1 \<le> MAX_CDF_SIZE" and "0 \<le> mx"
  shows "(int W - 1) * mx + AMBIGUITY_SCORE < int W * mn"
  using assms by (simp add: algebra_simps MAX_CDF_SIZE_def AMBIGUITY_SCORE_def)


lemma loaded_complete_motif_cells:
  assumes "loaded m0"
  defines "mc \<equiv> complete_motif m0"
  shows "completed mc" "threshold mc = 0" "max_score mc = 0" "size_m mc = size_m m0"
    "size_m mc \<le> 50"
    "\<And>(i::nat) (k::nat). i < size_m mc \<Longrightarrow> k < 5 \<Longrightarrow> pwm mc ! (k + i * 5) \<le> max_m mc"
    "\<And>(i::nat) (k::nat). i < size_m mc \<Longrightarrow> k < 5 \<Longrightarrow> pwm_rc mc ! (k + i * 5) \<le> max_m mc"
    "\<And>i. i < size_m mc \<Longrightarrow> pwm mc ! (4 + i * 5) = AMBIGUITY_SCORE"
    "\<And>i. i < size_m mc \<Longrightarrow> pwm_rc mc ! (4 + i * 5) = AMBIGUITY_SCORE"
proof -
  have sz: "size_m m0 \<le> 50" and len: "length (pwm_rc m0) = 250"
    and amb: "\<And>i. i < 50 \<Longrightarrow> pwm m0 ! (4 + i * 5) = AMBIGUITY_SCORE"
      "\<And>i. i < 50 \<Longrightarrow> pwm_rc m0 ! (4 + i * 5) = AMBIGUITY_SCORE"
    and z: "threshold m0 = 0" "max_score m0 = 0"
    using assms(1) by (simp_all add: loaded_def amb_columns_def MAX_MOTIF_SIZE_def)
  obtain r where mc: "mc = m0\<lparr>min_m := get_pwm_min m0, max_m := get_pwm_max m0, pwm_rc := r\<rparr>"
    and nth: "\<And>k j. k < 5 \<Longrightarrow> r ! (k + j * 5) =
           (if k < 4 \<and> j < size_m m0
            then pwm m0 ! ((3 - k) + (size_m m0 - 1 - j) * 5)
            else pwm_rc m0 ! (k + j * 5))"
    using complete_motif_result[OF sz len] unfolding mc_def by blast
  show c: "completed mc" unfolding mc_def by (rule completed_complete_motif)
  show "threshold mc = 0" "max_score mc = 0" "size_m mc = size_m m0" "size_m mc \<le> 50"
    using z sz by (simp_all add: mc)
  have mx0: "0 \<le> max_m mc" using completed_range(2)[OF c] .
  have ambneg: "AMBIGUITY_SCORE \<le> max_m mc" using mx0 by (simp add: AMBIGUITY_SCORE_def)
  have cell: "\<And>(i::nat) (k::nat). i < size_m mc \<Longrightarrow> k < 4 \<Longrightarrow> pwm m0 ! (k + i * 5) \<le> max_m mc"
    using completed_range(4)[OF c] by (simp add: get_score_i_def mc)
  show a1: "\<And>i. i < size_m mc \<Longrightarrow> pwm mc ! (4 + i * 5) = AMBIGUITY_SCORE"
    using amb(1) sz by (simp add: mc)
  show a2: "\<And>i. i < size_m mc \<Longrightarrow> pwm_rc mc ! (4 + i * 5) = AMBIGUITY_SCORE"
    using amb(2) sz nth[of 4] by (simp add: mc)
  show "\<And>(i::nat) (k::nat). i < size_m mc \<Longrightarrow> k < 5 \<Longrightarrow> pwm mc ! (k + i * 5) \<le> max_m mc"
  proof -
    fix i k :: nat assume i: "i < size_m mc" and k: "k < 5"
    show "pwm mc ! (k + i * 5) \<le> max_m mc"
    proof (cases "k < 4")
      case True
      then show ?thesis using cell[OF i True] by (simp add: mc)
    next
      case False
      then have "k = 4" using k by simp
      then show ?thesis using a1[OF i] ambneg by simp
    qed
  qed
  show "\<And>(i::nat) (k::nat). i < size_m mc \<Longrightarrow> k < 5 \<Longrightarrow> pwm_rc mc ! (k + i * 5) \<le> max_m mc"
  proof -
    fix i k :: nat assume i: "i < size_m mc" and k: "k < 5"
    show "pwm_rc mc ! (k + i * 5) \<le> max_m mc"
    proof (cases "k < 4")
      case True
      have i0: "i < size_m m0" using i by (simp add: mc)
      then have "size_m m0 - 1 - i < size_m mc" by (simp add: mc)
      moreover have "3 - k < 4" by simp
      ultimately have "pwm m0 ! ((3 - k) + (size_m m0 - 1 - i) * 5) \<le> max_m mc"
        by (rule cell)
      then show ?thesis using nth[OF k, of i] True i0 by (simp add: mc)
    next
      case False
      then have "k = 4" using k by simp
      then show ?thesis using a2[OF i] ambneg by simp
    qed
  qed
qed

text \<open>
  C4. Take a motif as the loaders leave it (at most 50 positions, ambiguity cells in
  place), completed and prepared by \<open>fill_cdf\<close> and \<open>set_threshold\<close> (with or without
  the override for a consensus motif) under any arguments, and a window of a sequence
  that holds a byte other than A, C, G, T, U in either case. Then the cell scored for
  that byte is the ambiguity score in both tables, both window scores are strictly
  below the threshold, and \<open>score_seq\<close> writes no line that starts at that window, on
  either strand.
\<close>

theorem ambiguous_window_never_hit:
  assumes "loaded m0"
    and "prepare_motif a has_consensus (complete_motif m0) = Inr m"
    and "off + size_m m \<le> length seq" and "j < size_m m"
    and "seq ! (j + off) \<notin> set ''ACGTUacgtu''"
  shows "get_score m (seq ! (j + off)) j = AMBIGUITY_SCORE
       \<and> get_score_rc m (seq ! (j + off)) j = AMBIGUITY_SCORE
       \<and> score_subseq m seq off < threshold m
       \<and> score_subseq_rc m seq off < threshold m
       \<and> (\<forall>h \<in> set (hits (score_seq a m nm seq \<lparr>hits = [], windows_scored = 0\<rparr>)).
             h_start h \<noteq> off + 1)"
proof -
  let ?mc = "complete_motif m0"
  note lc = loaded_complete_motif_cells[OF assms(1)]
  note pr = prepare_motif_result[OF lc(1,2,3) assms(2)]
  have j: "j < size_m ?mc" using assms(4) pr(3) by simp
  have k4: "char2index (seq ! (j + off)) = 4" using assms(5) by (simp add: char2index_ambiguous)
  have g1: "get_score m (seq ! (j + off)) j = AMBIGUITY_SCORE"
    using lc(8)[OF j] by (simp add: get_score_def k4 pr(1))
  have g2: "get_score_rc m (seq ! (j + off)) j = AMBIGUITY_SCORE"
    using lc(9)[OF j] by (simp add: get_score_rc_def k4 pr(2))
  have gap: "(int (size_m ?mc) - 1) * max_m ?mc + AMBIGUITY_SCORE < int (size_m ?mc) * min_m ?mc"
    using ambiguity_gap[OF pr(6)] completed_range(2)[OF lc(1)] by simp
  have k5: "\<And>i. char2index (seq ! (i + off)) < 5"
    using char2index_le4 by (simp add: less_Suc_eq_le[symmetric] eval_nat_numeral)
  have "score_subseq m seq off \<le> (int (size_m ?mc) - 1) * max_m ?mc + AMBIGUITY_SCORE"
    unfolding score_subseq_sum pr(1) pr(3)
    using lc(6)[OF _ k5] j g1 
    by (intro sum_with_ambiguity[where j=j]) (simp_all add: get_score_def pr(1))
  then have s1: "score_subseq m seq off < threshold m" using gap pr(7) by linarith
  have "score_subseq_rc m seq off \<le> (int (size_m ?mc) - 1) * max_m ?mc + AMBIGUITY_SCORE"
    unfolding score_subseq_rc_sum pr(2) pr(3)
    using lc(7)[OF _ k5] j g2
    by (intro sum_with_ambiguity[where j=j]) (simp_all add: get_score_rc_def pr(2))
  then have s2: "score_subseq_rc m seq off < threshold m" using gap pr(7) by linarith
  have nohit: "\<forall>h \<in> set (hits (score_seq a m nm seq \<lparr>hits = [], windows_scored = 0\<rparr>)).
             h_start h \<noteq> off + 1"
  proof
    fix h assume h: "h \<in> set (hits (score_seq a m nm seq \<lparr>hits = [], windows_scored = 0\<rparr>))"
    then consider i where "threshold m \<le> score_subseq m seq i"
          "h = hit_at score_subseq CHR ''+'' m nm seq i"
      | i where "threshold m \<le> score_subseq_rc m seq i"
          "h = hit_at score_subseq_rc CHR ''-'' m nm seq i"
      by (auto simp: score_seq_def scan_strand_eq Let_def split: if_splits)
    then show "h_start h \<noteq> off + 1"
    proof cases
      case 1
      then show ?thesis using s1 by (auto simp: hit_at_def)
    next
      case 2
      then show ?thesis using s2 by (auto simp: hit_at_def)
    qed
  qed
  show ?thesis using g1 g2 s1 s2 nohit by blast
qed


lemma fill_cdf_pvalue: "fill_cdf (a\<lparr>pvalue := p\<rparr>) m = fill_cdf a m"
proof -
  have "cdf_position (a\<lparr>pvalue := p\<rparr>) m = cdf_position a m"
    by (intro ext) (simp add: cdf_position_def)
  then have "cdf_array (a\<lparr>pvalue := p\<rparr>) m = cdf_array a m"
    unfolding cdf_array_def pdf_array_def by simp
  then show ?thesis unfolding fill_cdf_def Let_def by simp
qed

lemma example_prepare:
  "prepare_motif example_args False (complete_motif example_loaded) = Inr example_prepared"
proof -
  have f: "fill_cdf example_args example_motif = fill_cdf default_args example_motif"
    unfolding example_args_def by (rule fill_cdf_pvalue)
  have t: "set_threshold example_args (example_motif\<lparr>cdf_size := 7, cdf := example_cdf\<rparr>)
             = example_prepared"
    unfolding example_prepared_def example_args_def by code_simp
  show ?thesis
    unfolding prepare_motif_def example_motif_def[symmetric] f example_fill_cdf
    by (simp add: t)
qed

theorem ambiguous_window_never_hit_witness:
  "loaded example_loaded
   \<and> prepare_motif example_args False (complete_motif example_loaded) = Inr example_prepared
   \<and> 1 + size_m example_prepared \<le> length ''ACNGT''
   \<and> ''ACNGT'' ! (1 + 1) = CHR ''N''
   \<and> get_score example_prepared CHR ''N'' 1 = AMBIGUITY_SCORE
   \<and> score_subseq example_prepared ''ACNGT'' 1 < threshold example_prepared
   \<and> score_subseq_rc example_prepared ''ACNGT'' 1 < threshold example_prepared"
proof -
  have sz: "size_m example_prepared = 2"
    by (simp add: example_prepared_def example_threshold_fields)
  have fit: "1 + size_m example_prepared \<le> length ''ACNGT''" by (simp add: sz)
  have j: "1 < size_m example_prepared" by (simp add: sz)
  have n: "''ACNGT'' ! (1 + 1) = CHR ''N''" by simp
  have amb: "''ACNGT'' ! (1 + 1) \<notin> set ''ACGTUacgtu''" by simp
  from ambiguous_window_never_hit[OF example_loaded_loaded example_prepare fit j amb]
  show ?thesis using example_loaded_loaded example_prepare fit n by simp
qed

section \<open>Claim C7: motifs wider than 50 positions\<close>

lemma add_motif_column_unit_row:
  "\<exists>m'. add_motif_column a m [1, 0, 0, 0] pos = Inr m' \<and> size_m m' = size_m m"
  by (simp add: add_motif_column_def get_line_probs_def atof_unit normalize_probs_unit_row
      Let_def)

lemma read_homer_unit_rows:
  "hs_motifs st \<noteq> [] \<Longrightarrow>
   \<exists>st'. read_homer_loop a (replicate n (HomerRow [1, 0, 0, 0])) st = Inr st'
        \<and> hs_motifs st' \<noteq> []
        \<and> length (hs_motifs st') = length (hs_motifs st)
        \<and> (0 < n \<longrightarrow> size_m (last (hs_motifs st')) = hs_pos_i st + n)
        \<and> (hs_pos_i st + n \<le> 51 \<longrightarrow> hs_printed st' = hs_printed st)"
proof (induction n arbitrary: st)
  case 0
  then show ?case by simp
next
  case (Suc n)
  let ?st1 = "if hs_pos_i st > MAX_MOTIF_SIZE div 5
              then st\<lparr>hs_printed := hs_printed st @ [MotifTooLarge]\<rparr> else st"
  have m1: "hs_motifs ?st1 = hs_motifs st" and p1: "hs_pos_i ?st1 = hs_pos_i st" by simp_all
  obtain m' where col: "add_motif_column a (last (hs_motifs st)) [1, 0, 0, 0] (hs_pos_i st) = Inr m'"
    using add_motif_column_unit_row by blast
  let ?st2 = "?st1\<lparr>hs_motifs := butlast (hs_motifs ?st1) @ [m'\<lparr>size_m := hs_pos_i ?st1 + 1\<rparr>],
                   hs_pos_i := hs_pos_i ?st1 + 1\<rparr>"
  have step: "read_homer_loop a (replicate (Suc n) (HomerRow [1, 0, 0, 0])) st
                = read_homer_loop a (replicate n (HomerRow [1, 0, 0, 0])) ?st2"
    using Suc.prems col by (simp add: Let_def)
  have ne: "hs_motifs ?st2 \<noteq> []" by simp
  from Suc.IH[OF ne] obtain st' where
    r: "read_homer_loop a (replicate n (HomerRow [1, 0, 0, 0])) ?st2 = Inr st'"
    and ne': "hs_motifs st' \<noteq> []"
    and len: "length (hs_motifs st') = length (hs_motifs ?st2)"
    and sz: "0 < n \<longrightarrow> size_m (last (hs_motifs st')) = hs_pos_i ?st2 + n"
    and pr: "hs_pos_i ?st2 + n \<le> 51 \<longrightarrow> hs_printed st' = hs_printed ?st2"
    by blast
  have len': "length (hs_motifs st') = length (hs_motifs st)"
    using len Suc.prems by (cases "hs_motifs st" rule: rev_cases) simp_all
  have sz': "size_m (last (hs_motifs st')) = hs_pos_i st + Suc n"
  proof (cases n)
    case 0
    then have "st' = ?st2" using r by simp
    then show ?thesis using 0 by simp
  next
    case (Suc k)
    then show ?thesis using sz by simp
  qed
  have pr': "hs_pos_i st + Suc n \<le> 51 \<longrightarrow> hs_printed st' = hs_printed st"
    using pr by (simp add: MAX_MOTIF_SIZE_def)
  show ?case unfolding step using r ne' len' sz' pr' by simp
qed

lemma consensus2index_A: "consensus2index CHR ''A'' = 0"
  by (simp add: consensus2index_def consensus2index_tab_def)

lemma consensus_columns_As:
  "\<exists>m'. consensus_columns a m (replicate n CHR ''A'') pos = Inr m' \<and> size_m m' = size_m m"
proof (induction n arbitrary: m pos)
  case 0
  then show ?case by simp
next
  case (Suc n)
  let ?m1 = "set_score (set_score (set_score (set_score m CHR ''A'' pos
                     (calc_score a (consensus2probs ! (nat 0 * 4 + 0)) (bkg a ! 0)))
                   CHR ''C'' pos (calc_score a (consensus2probs ! (nat 0 * 4 + 1)) (bkg a ! 1)))
                 CHR ''G'' pos (calc_score a (consensus2probs ! (nat 0 * 4 + 2)) (bkg a ! 2)))
               CHR ''T'' pos (calc_score a (consensus2probs ! (nat 0 * 4 + 3)) (bkg a ! 3))"
  have step: "consensus_columns a m (replicate (Suc n) CHR ''A'') pos
                = consensus_columns a ?m1 (replicate n CHR ''A'') (pos + 1)"
    by (simp add: consensus2index_A Let_def)
  from Suc[of ?m1 "pos + 1"] obtain m'
    where "consensus_columns a ?m1 (replicate n CHR ''A'') (pos + 1) = Inr m'"
      and "size_m m' = size_m ?m1" by blast
  then show ?case unfolding step by simp
qed

lemma complete_motif_size: "size_m (complete_motif m) = size_m m"
proof -
  obtain r where "complete_motif m
      = m\<lparr>min_m := get_pwm_min m, max_m := get_pwm_max (m\<lparr>min_m := get_pwm_min m\<rparr>), pwm_rc := r\<rparr>"
    using fill_pwm_rc_fields[of "m\<lparr>min_m := get_pwm_min m,
        max_m := get_pwm_max (m\<lparr>min_m := get_pwm_min m\<rparr>)\<rparr>"]
    by (auto simp: complete_motif_def Let_def)
  then show ?thesis by simp
qed

text \<open>
  C7 at a HOMER motif of 51 rows and at a consensus of 51 letters: \<open>read_homer\<close>
  returns the motif with size 51 and prints nothing (its test is \<open>pos_i > 50\<close> and it
  does not exit), \<open>add_consensus_motif\<close> prints its message and returns the motif with
  size 51. The MEME reader stops at the 51st row.
\<close>

theorem wide_motif_is_loaded:
  "(case read_homer a (HomerHeader ''m'' # replicate 51 (HomerRow [1, 0, 0, 0])) of
      Inl e \<Rightarrow> None
    | Inr st \<Rightarrow> Some (map size_m (hs_motifs st), hs_printed st)) = Some ([51], [])
   \<and> (case add_consensus_motif a (replicate 51 CHR ''A'') of
        Inl e \<Rightarrow> None
      | Inr (m, printed) \<Rightarrow> Some (size_m m, printed)) = Some (51, [MotifTooLarge])
   \<and> read_meme_row a m [1, 0, 0, 0] 50 = Inl MotifTooLarge"
proof -
  let ?st0 = "\<lparr>hs_motifs = [init_motif\<lparr>name := ''m''\<rparr>], hs_pos_i = 0, hs_printed = []\<rparr>"
  have "hs_motifs ?st0 \<noteq> []" by simp
  from read_homer_unit_rows[OF this, of a 51] obtain st' where
    r: "read_homer_loop a (replicate 51 (HomerRow [1, 0, 0, 0])) ?st0 = Inr st'"
    and len: "length (hs_motifs st') = 1"
    and sz: "size_m (last (hs_motifs st')) = 51" and pr: "hs_printed st' = []"
    by auto
  from len obtain x where x: "hs_motifs st' = [x]" by (cases "hs_motifs st'") auto
  have homer: "(case read_homer a (HomerHeader ''m'' # replicate 51 (HomerRow [1, 0, 0, 0])) of
      Inl e \<Rightarrow> None
    | Inr st \<Rightarrow> Some (map size_m (hs_motifs st), hs_printed st)) = Some ([51], [])"
    using r x sz pr by (simp add: read_homer_def)
  let ?m0 = "init_motif\<lparr>name := replicate 51 CHR ''A'',
                          size_m := length (replicate 51 CHR ''A'')\<rparr>"
  obtain mc where c: "consensus_columns a ?m0 (replicate 51 CHR ''A'') 0 = Inr mc"
    and "size_m mc = size_m ?m0"
    using consensus_columns_As[where a=a and m="?m0" and n=51 and pos=0] by blast
  then have cons: "(case add_consensus_motif a (replicate 51 CHR ''A'') of
        Inl e \<Rightarrow> None
      | Inr (m, printed) \<Rightarrow> Some (size_m m, printed)) = Some (51, [MotifTooLarge])"
    by (simp add: add_consensus_motif_def Let_def complete_motif_size MAX_MOTIF_SIZE_def)
  have meme: "read_meme_row a m [1, 0, 0, 0] 50 = Inl MotifTooLarge"
    by (simp add: read_meme_row_def MAX_MOTIF_SIZE_def)
  show ?thesis using homer cons meme by simp
qed

section \<open>Bounds on binary logarithms\<close>

lemma two_powr_ratio_power:
  assumes "0 < n"
  shows "(2 powr (- (real k / real n))) ^ n = (1 / 2) ^ k"
proof -
  have "(2 powr (- (real k / real n))) ^ n = 2 powr (of_nat n * (- (real k / real n)))"
    by (rule powr_power) simp
  also have "of_nat n * (- (real k / real n)) = - real k" using assms by simp
  also have "(2::real) powr (- real k) = inverse (2 powr real k)" by (rule powr_minus)
  also have "(2::real) powr real k = 2 ^ k" by (rule powr_realpow) simp
  finally show ?thesis by (simp add: power_one_over inverse_eq_divide)
qed

lemma log2_ge:
  assumes "0 < u" and "0 < n" and "(1 / 2) ^ k \<le> u ^ n"
  shows "- (real k / real n) \<le> log 2 u"
proof -
  have "(2 powr (- (real k / real n))) ^ n \<le> u ^ n"
    using assms(3) by (simp only: two_powr_ratio_power[OF assms(2)])
  then have "2 powr (- (real k / real n)) \<le> u"
    using assms(1,2) by (simp add: power_mono_iff)
  then show ?thesis using assms(1) by (simp add: le_log_iff)
qed

lemma log2_less:
  assumes "0 < u" and "0 < n" and "u ^ n < (1 / 2) ^ k"
  shows "log 2 u < - (real k / real n)"
proof -
  have "u ^ n < (2 powr (- (real k / real n))) ^ n"
    using assms(3) by (simp only: two_powr_ratio_power[OF assms(2)])
  then have "u < 2 powr (- (real k / real n))"
    by (rule power_less_imp_less_base) simp
  then show ?thesis using assms(1) by (simp add: log_less_iff)
qed

lemma power_le_exp:
  fixes x :: real
  assumes "0 \<le> 1 + x"
  shows "(1 + x) ^ n \<le> exp (of_nat n * x)"
proof -
  have "(1 + x) ^ n \<le> exp x ^ n" using assms by (intro power_mono) simp_all
  then show ?thesis by (simp add: exp_of_nat_mult)
qed

lemma log2_4001_4004:
  "- (3 / 2000) \<le> log 2 (4001 / 4004 :: real)" "log 2 (4001 / 4004 :: real) < - (1 / 1000)"
proof -
  let ?u = "4001 / 4004 :: real"
  have b: "1 + real 500 * (- (3 / 4004)) \<le> (1 + (- (3 / 4004))) ^ 500"
    by (rule Bernoulli_inequality) simp
  have "(1 / 2) ^ 3 \<le> (2504 / 4004 :: real) ^ 4" by (simp add: power_divide)
  also have "\<dots> \<le> (?u ^ 500) ^ 4" using b by (intro power_mono) simp_all
  also have "\<dots> = ?u ^ 2000" by (simp add: power_mult[symmetric])
  finally have "- (real 3 / real 2000) \<le> log 2 ?u" by (intro log2_ge) simp_all
  then show "- (3 / 2000) \<le> log 2 ?u" by simp
  have "?u ^ 1000 \<le> exp (of_nat 1000 * (- (3 / 4004)))"
    using power_le_exp[of "- (3 / 4004)" 1000] by simp
  also have "\<dots> = inverse (exp (750 / 1001))" by (simp add: exp_minus)
  also have "\<dots> < (1 / 2) ^ 1"
  proof -
    have "(2::real) < 1 + 750 / 1001 + (750 / 1001)\<^sup>2 / 2" by (simp add: power2_eq_square)
    also have "\<dots> \<le> exp (750 / 1001)" by (rule exp_lower_Taylor_quadratic) simp
    finally have "inverse (exp (750 / 1001 :: real)) < inverse 2"
      by (simp add: inverse_eq_divide field_simps)
    then show ?thesis by simp
  qed
  finally have "log 2 ?u < - (real 1 / real 1000)" by (intro log2_less) simp_all
  then show "log 2 ?u < - (1 / 1000)" by simp
qed

lemma log2_1001_1024:
  "- (33 / 1000) \<le> log 2 (1001 / 1024 :: real)" "log 2 (1001 / 1024 :: real) < - (32 / 1000)"
proof -
  let ?v = "1001 / 1024 :: real"
  have s1: "(4463 / 5000 :: real) \<le> ?v ^ 5" by (simp add: power_divide)
  have s2: "(5666 / 10000 :: real) \<le> (4463 / 5000) ^ 5" by (simp add: power_divide)
  have s3: "(5839 / 100000 :: real) \<le> (5666 / 10000) ^ 5" by (simp add: power_divide)
  have s4: "(1 / 2 :: real) ^ 33 \<le> (5839 / 100000) ^ 8" by (simp add: power_divide)
  have "(5666 / 10000 :: real) \<le> (?v ^ 5) ^ 5"
    using s2 power_mono[OF s1, of 5] by simp
  then have "(5839 / 100000 :: real) \<le> ((?v ^ 5) ^ 5) ^ 5"
    using s3 power_mono[of "5666 / 10000 :: real" "(?v ^ 5) ^ 5" 5] by simp
  then have "(1 / 2 :: real) ^ 33 \<le> (((?v ^ 5) ^ 5) ^ 5) ^ 8"
    using s4 power_mono[of "5839 / 100000 :: real" "((?v ^ 5) ^ 5) ^ 5" 8] by simp
  also have "(((?v ^ 5) ^ 5) ^ 5) ^ 8 = ?v ^ 1000" by (simp add: power_mult[symmetric])
  finally have "- (real 33 / real 1000) \<le> log 2 ?v" by (intro log2_ge) simp_all
  then show "- (33 / 1000) \<le> log 2 ?v" by simp
  let ?q = "2875 / 16384 :: real"
  have "(2::real) < (1 + ?q + ?q\<^sup>2 / 2) ^ 4" by (simp add: power_divide power2_eq_square)
  also have "\<dots> \<le> exp ?q ^ 4"
    by (intro power_mono exp_lower_Taylor_quadratic) simp_all
  finally have "(2::real) ^ 32 < (exp ?q ^ 4) ^ 32" by (intro power_strict_mono) simp_all
  also have "\<dots> = exp ?q ^ 128" by (simp add: power_mult[symmetric])
  also have "\<dots> = exp (of_nat 128 * ?q)" by (rule exp_of_nat_mult[symmetric])
  finally have e: "(2::real) ^ 32 < exp (2875 / 128)" by simp
  have "?v ^ 1000 \<le> exp (of_nat 1000 * (- (23 / 1024)))"
    using power_le_exp[of "- (23 / 1024)" 1000] by simp
  also have "\<dots> = inverse (exp (2875 / 128))" by (simp add: exp_minus)
  also have "\<dots> < inverse (2 ^ 32)" using e by (simp add: field_simps)
  also have "\<dots> = (1 / 2 :: real) ^ 32" by (simp add: power_one_over inverse_eq_divide)
  finally have "log 2 ?v < - (real 32 / real 1000)" by (intro log2_less) simp_all
  then show "log 2 ?v < - (32 / 1000)" by simp
qed

section \<open>Claim C1: the scores stored for a column\<close>

lemma calc_score_truncated:
  assumes "0 < smoothed a p / b" and "0 < nsites a + pseudocount a"
    and "nsites a + pseudocount a \<le> INT_MAX"
  shows "calc_score a p b = truncated_score a p b"
proof -
  have w: "c_int_wrap (nsites a + pseudocount a) = nsites a + pseudocount a"
    using assms(2,3) by (rule c_int_wrap_id)
  have "\<not> smoothed a p / b \<le> 0" using assms(1) by simp
  then show ?thesis
    by (simp add: calc_score_def truncated_score_def smoothed_def Let_def
        PWM_INT_MULTIPLIER_def w mult.commute)
qed

lemma consensus_args_log:
  assumes "nsites a = 1000" and "pseudocount a = 1"
  shows "1000 * log 2 (smoothed a 1 / (1 / 4)) = 2000 + 1000 * log 2 (4001 / 4004)"
    and "1000 * log 2 (smoothed a 0 / (1 / 4)) = - 10000 - 1000 * log 2 (1001 / 1024)"
proof -
  have "smoothed a 1 / (1 / 4) = 4 * (4001 / 4004)" using assms by (simp add: smoothed_def)
  then have "log 2 (smoothed a 1 / (1 / 4)) = log 2 (4 * (4001 / 4004))" by (rule arg_cong)
  also have "\<dots> = log 2 4 + log 2 (4001 / 4004 :: real)"
    by (rule log_mult_pos) simp_all
  also have "log 2 (4::real) = 2"
    using log_pow_cancel[of "2::real" 2] by simp
  finally have l1: "log 2 (smoothed a 1 / (1 / 4)) = 2 + log 2 (4001 / 4004)" .
  show "1000 * log 2 (smoothed a 1 / (1 / 4)) = 2000 + 1000 * log 2 (4001 / 4004)"
    unfolding l1 by (simp add: algebra_simps)
  have "smoothed a 0 / (1 / 4) = 1 / (1024 * (1001 / 1024))" using assms by (simp add: smoothed_def)
  then have "log 2 (smoothed a 0 / (1 / 4)) = log 2 (1 / (1024 * (1001 / 1024)))"
    by (rule arg_cong)
  also have "\<dots> = - log 2 (1024 * (1001 / 1024 :: real))"
    by (rule log_recip)
  also have "log 2 (1024 * (1001 / 1024)) = log 2 1024 + log 2 (1001 / 1024 :: real)"
    by (rule log_mult_pos) simp_all
  also have "log 2 (1024::real) = 10"
    using log_pow_cancel[of "2::real" 10] by simp
  finally have l0: "log 2 (smoothed a 0 / (1 / 4)) = - (10 + log 2 (1001 / 1024))" .
  show "1000 * log 2 (smoothed a 0 / (1 / 4)) = - 10000 - 1000 * log 2 (1001 / 1024)"
    unfolding l0 by (simp add: algebra_simps)
qed

lemma consensus_scores:
  assumes "nsites a = 1000" and "pseudocount a = 1"
  shows "truncated_score a 1 (1 / 4) = 1998" and "rounded_score a 1 (1 / 4) = 1999"
    and "truncated_score a 0 (1 / 4) = - 9967"
proof -
  let ?x = "1000 * log 2 (smoothed a 1 / (1 / 4))"
  let ?y = "1000 * log 2 (smoothed a 0 / (1 / 4))"
  have x: "19985 / 10 \<le> ?x" "?x < 1999"
    unfolding consensus_args_log(1)[OF assms] using log2_4001_4004 by simp_all
  have y: "- 9968 < ?y" "?y \<le> - 9967"
    unfolding consensus_args_log(2)[OF assms] using log2_1001_1024 by simp_all
  have "\<lfloor>?x\<rfloor> = 1998" using x by (intro floor_unique) simp_all
  then show "truncated_score a 1 (1 / 4) = 1998"
    using x by (simp add: truncated_score_def c_int_cast_def)
  have "\<lfloor>?x + 1 / 2\<rfloor> = 1999" using x by (intro floor_unique) simp_all
  then show "rounded_score a 1 (1 / 4) = 1999"
    by (simp add: rounded_score_def round_def)
  have "\<lceil>?y\<rceil> = - 9967" using y by (intro ceiling_unique) simp_all
  then show "truncated_score a 0 (1 / 4) = - 9967"
    using y by (simp add: truncated_score_def c_int_cast_def)
qed



section \<open>Claim C1: one column\<close>




lemma acgt_column_fields [simp]:
  "size_m (acgt_column m pos va vc vg vt) = size_m m"
  "threshold (acgt_column m pos va vc vg vt) = threshold m"
  "max_score (acgt_column m pos va vc vg vt) = max_score m"
  "min_score (acgt_column m pos va vc vg vt) = min_score m"
  "pwm_rc (acgt_column m pos va vc vg vt) = pwm_rc m"
  "name (acgt_column m pos va vc vg vt) = name m"
  "length (pwm (acgt_column m pos va vc vg vt)) = length (pwm m)"
  by (simp_all add: acgt_column_def)











lemma column_scores_size [simp]: "column_scores a (m\<lparr>size_m := n\<rparr>) i p = column_scores a m i p"
  by (simp add: column_scores_def get_score_i_def)

lemma row_stored_size [simp]: "row_stored a (m\<lparr>size_m := n\<rparr>) i f = row_stored a m i f"
  by (simp add: row_stored_def split: sum.splits)

lemma motif_base_size [simp]: "motif_base (m\<lparr>size_m := n\<rparr>) = motif_base m"
  by (simp add: motif_base_def)




section \<open>Claim C1: the rows of a HOMER file\<close>






section \<open>Claim C1: the rows of a MEME file\<close>






section \<open>Claim C1: the letters of a consensus\<close>






section \<open>Claim C1: the ambiguity cells after complete_motif\<close>



section \<open>Claim C1: the counts of a JASPAR motif\<close>












section \<open>Claim C1: the scores stored by the loaders\<close>










section \<open>Claim C9: the consensus ACGT on TTACGTAA\<close>

lemma consensus_args_scores:
  "calc_score consensus_args 1 (1 / 4) = 1998" "calc_score consensus_args 0 (1 / 4) = - 9967"
proof -
  have "calc_score consensus_args 1 (1 / 4) = truncated_score consensus_args 1 (1 / 4)"
    "calc_score consensus_args 0 (1 / 4) = truncated_score consensus_args 0 (1 / 4)"
    by (rule calc_score_truncated;
        simp add: smoothed_def consensus_args_def default_args_def INT_MAX_def)+
  then show "calc_score consensus_args 1 (1 / 4) = 1998"
    "calc_score consensus_args 0 (1 / 4) = - 9967"
    using consensus_scores[of consensus_args]
    by (simp_all add: consensus_args_def default_args_def)
qed

lemma consensus2index_letters:
  "consensus2index CHR ''A'' = 0" "consensus2index CHR ''C'' = 1"
  "consensus2index CHR ''G'' = 2" "consensus2index CHR ''T'' = 3"
  by (simp_all add: consensus2index_def consensus2index_tab_def)

lemma acgt_consensus_columns:
  "consensus_columns consensus_args (init_motif\<lparr>name := ''ACGT'', size_m := 4\<rparr>) ''ACGT'' 0
     = Inr acgt_loaded"
proof -
  have b: "bkg consensus_args ! 0 = 1 / 4" "bkg consensus_args ! 1 = 1 / 4"
    "bkg consensus_args ! 2 = 1 / 4" "bkg consensus_args ! 3 = 1 / 4"
    "bkg consensus_args ! Suc 0 = 1 / 4"
    by (simp_all add: consensus_args_def)
  have p: "consensus2probs ! 0 = 1" "consensus2probs ! 1 = 0" "consensus2probs ! 2 = 0"
    "consensus2probs ! 3 = 0" "consensus2probs ! 4 = 0" "consensus2probs ! 5 = 1"
    "consensus2probs ! 6 = 0" "consensus2probs ! 7 = 0" "consensus2probs ! 8 = 0"
    "consensus2probs ! 9 = 0" "consensus2probs ! 10 = 1" "consensus2probs ! 11 = 0"
    "consensus2probs ! 12 = 0" "consensus2probs ! 13 = 0" "consensus2probs ! 14 = 0"
    "consensus2probs ! 15 = 1" "consensus2probs ! Suc 0 = 0" "consensus2probs ! Suc (Suc 0) = 0"
    by (simp_all add: consensus2probs_def)
  show ?thesis
    by (simp add: consensus2index_letters Let_def b p consensus_args_scores acgt_loaded_def
        acgt_column_def) (simp add: numeral_2_eq_2 numeral_3_eq_3)
qed

lemma acgt_add_consensus_motif:
  "add_consensus_motif consensus_args ''ACGT'' = Inr (acgt_motif, [])"
proof -
  have len: "length ''ACGT'' = 4" by simp
  show ?thesis
    unfolding add_consensus_motif_def Let_def len acgt_consensus_columns
    by (simp add: acgt_motif_def MAX_MOTIF_SIZE_def)
qed

lemma acgt_fields:
  "size_m acgt_motif = 4" "min_m acgt_motif = - 9967" "max_m acgt_motif = 1998"
  "threshold acgt_motif = 0" "max_score acgt_motif = 0" "min_score acgt_motif = 0"
  "name acgt_motif = ''ACGT''" "motif_max_score acgt_motif = 7992"
  "motif_min_score acgt_motif = - 39868"
  by code_simp+


lemma acgt_prepare:
  "prepare_motif consensus_args True acgt_motif = Inr acgt_prepared"
proof -
  let ?m1 = "acgt_motif\<lparr>cdf_size := 47861, cdf := cdf_array consensus_args acgt_motif\<rparr>"
  have f: "fill_cdf consensus_args acgt_motif = Inr ?m1"
    by (simp add: fill_cdf_def acgt_fields MAX_CDF_SIZE_def)
  have mx: "motif_max_score ?m1 = 7992" "motif_min_score ?m1 = - 39868"
    using acgt_fields(8,9)
    by (simp_all add: motif_max_score_def motif_min_score_def position_max_def position_min_def
        get_score_i_def)
  show ?thesis
    unfolding prepare_motif_def f
    by (simp add: set_threshold_eq Let_def mx acgt_fields acgt_prepared_def)
qed

lemma acgt_prepared_scores:
  "score_subseq acgt_prepared seq i = score_subseq acgt_motif seq i"
  "score_subseq_rc acgt_prepared seq i = score_subseq_rc acgt_motif seq i"
  by (simp_all add: score_subseq_def score_subseq_rc_def get_score_def get_score_rc_def
      acgt_prepared_def)

lemma acgt_window_scores:
  "score_subseq acgt_motif ''TTACGTAA'' 0 = - 39868"
  "score_subseq acgt_motif ''TTACGTAA'' 1 = - 39868"
  "score_subseq acgt_motif ''TTACGTAA'' 2 = 7992"
  "score_subseq acgt_motif ''TTACGTAA'' 3 = - 39868"
  "score_subseq acgt_motif ''TTACGTAA'' 4 = - 39868"
  "score_subseq_rc acgt_motif ''TTACGTAA'' 0 = - 39868"
  "score_subseq_rc acgt_motif ''TTACGTAA'' 1 = - 39868"
  "score_subseq_rc acgt_motif ''TTACGTAA'' 2 = 7992"
  "score_subseq_rc acgt_motif ''TTACGTAA'' 3 = - 39868"
  "score_subseq_rc acgt_motif ''TTACGTAA'' 4 = - 39868"
  by code_simp+

lemma upt_5: "[0..<5] = [0, 1, 2, 3, 4]"
  by (simp add: upt_rec)

lemma acgt_score_seq:
  "hits (score_seq consensus_args acgt_prepared ''s1'' ''TTACGTAA'' \<lparr>hits = [], windows_scored = 0\<rparr>)
     = [hit_at score_subseq CHR ''+'' acgt_prepared ''s1'' ''TTACGTAA'' 2,
        hit_at score_subseq_rc CHR ''-'' acgt_prepared ''s1'' ''TTACGTAA'' 2]"
proof -
  have t: "threshold acgt_prepared = 7992" "size_m acgt_prepared = 4"
    by (simp_all add: acgt_prepared_def acgt_fields)
  have w: "length ''TTACGTAA'' - size_m acgt_prepared + 1 = 5" by (simp add: t)
  have rc: "scan_rc consensus_args" by (simp add: consensus_args_def default_args_def)
  have f1: "filter (\<lambda>i. threshold acgt_prepared \<le> score_subseq acgt_prepared ''TTACGTAA'' i)
              [0..<5] = [2]"
    by (simp add: upt_5 t acgt_prepared_scores acgt_window_scores
        acgt_window_scores(2,7)[unfolded One_nat_def])
  have f2: "filter (\<lambda>i. threshold acgt_prepared \<le> score_subseq_rc acgt_prepared ''TTACGTAA'' i)
              [0..<5] = [2]"
    by (simp add: upt_5 t acgt_prepared_scores acgt_window_scores
        acgt_window_scores(2,7)[unfolded One_nat_def])
  have ne: "\<not> (length ''TTACGTAA'' < size_m acgt_prepared \<or> threshold acgt_prepared = INT_MAX)"
    by (simp add: t INT_MAX_def)
  show ?thesis
    unfolding score_seq_def scan_strand_eq w f1 f2 Let_def
    using ne rc by simp
qed

text \<open>
  C9. With the consensus \<open>ACGT\<close>, the single sequence \<open>s1 = TTACGTAA\<close> and default
  settings, \<open>main\<close> writes exactly two lines, in this order: the forward hit at start 3,
  end 6 with match \<open>ACGT\<close> and the reverse hit at the same coordinates (both with raw
  score 7992).
\<close>

theorem consensus_acgt_two_hits:
  "(case main_consensus default_args ''ACGT'' [(''s1'', ''TTACGTAA'')] of
      Inl e \<Rightarrow> None
    | Inr out \<Rightarrow>
        Some (map (\<lambda>h. (h_seq h, h_start h, h_end h, h_strand h, h_motif h, h_score h, h_match h))
                (hits out)))
   = Some [(''s1'', 3, 6, CHR ''+'', ''ACGT'', 7992, ''ACGT''),
           (''s1'', 3, 6, CHR ''-'', ''ACGT'', 7992, ''ACGT'')]"
proof -
  have m: "main_consensus default_args ''ACGT'' [(''s1'', ''TTACGTAA'')]
             = Inr (score_seq consensus_args acgt_prepared ''s1'' ''TTACGTAA''
                      \<lparr>hits = [], windows_scored = 0\<rparr>)"
    unfolding main_consensus_def Let_def consensus_args_def[symmetric] acgt_add_consensus_motif
    by (simp add: scan_motif_def acgt_prepare)
  have h: "hit_at score_subseq CHR ''+'' acgt_prepared ''s1'' ''TTACGTAA'' 2
             = \<lparr>h_seq = ''s1'', h_start = 3, h_end = 6, h_strand = CHR ''+'', h_motif = ''ACGT'',
                h_pvalue = cdf acgt_prepared ! 47860, h_score = 7992, h_match = ''ACGT''\<rparr>"
    "hit_at score_subseq_rc CHR ''-'' acgt_prepared ''s1'' ''TTACGTAA'' 2
             = \<lparr>h_seq = ''s1'', h_start = 3, h_end = 6, h_strand = CHR ''-'', h_motif = ''ACGT'',
                h_pvalue = cdf acgt_prepared ! 47860, h_score = 7992, h_match = ''ACGT''\<rparr>"
    by (simp_all add: hit_at_def acgt_prepared_scores acgt_window_scores)
       (simp_all add: acgt_prepared_def acgt_fields)
  show ?thesis unfolding m by (simp add: acgt_score_seq h)
qed

end
